theory Spec2Isabelle
  imports Complex_Main
begin

section \<open>Common modelling conventions\<close>

text \<open>
  Python floats and \<^verbatim>\<open>datetime\<close> values are idealised as real numbers: a point in time is
  the number of seconds elapsed since \<^verbatim>\<open>datetime.min\<close>, a \<^verbatim>\<open>timedelta\<close> is a number of
  seconds.  Every function that reads the clock takes the value read as its argument \<open>now\<close>;
  the several reads inside one synchronous call are taken to return the same instant.
  Random draws are arguments as well.  The clock readings meant are those of a running
  system, more than a day after \<^verbatim>\<open>datetime.min\<close>: nearer to it the subtractions of the
  source leave the range of \<^verbatim>\<open>datetime\<close> and raise, which is not modelled.
\<close>

type_synonym time = real

definition datetime_min :: time where
  "datetime_min = 0"

datatype py_error = KeyError string | AttributeError

text \<open>
  \<^verbatim>\<open>str.lower()\<close> on the ASCII letters; every other character is left as it is, so keys
  are taken to be ASCII strings.
\<close>

definition lower_char :: "char \<Rightarrow> char" where
  "lower_char c =
     (case map_of (zip ''ABCDEFGHIJKLMNOPQRSTUVWXYZ'' ''abcdefghijklmnopqrstuvwxyz'') c of
        Some d \<Rightarrow> d
      | None \<Rightarrow> c)"

definition lower :: "string \<Rightarrow> string" where
  "lower s = map lower_char s"

section \<open>Rate limiter (scraper/core/rate\_limiter.py)\<close>

record rate_limit =
  requests_per_minute :: int
  requests_per_hour :: int
  requests_per_day :: int
  burst_limit :: int
  cooldown_period :: real
  jitter_range :: real

definition RateLimit :: "int \<Rightarrow> int \<Rightarrow> int \<Rightarrow> int \<Rightarrow> real \<Rightarrow> rate_limit" where
  "RateLimit rpm rph rpd burst cooldown =
     \<lparr>requests_per_minute = rpm, requests_per_hour = rph, requests_per_day = rpd,
      burst_limit = burst, cooldown_period = cooldown, jitter_range = 1 / 10\<rparr>"

text \<open>
  The four \<^verbatim>\<open>defaultdict\<close>s are total functions that return the default on a key never
  written.  \<open>request_history\<close> holds each key's deque, oldest entry first.  \<open>reset_tasks\<close> are
  the \<^verbatim>\<open>_reset_burst_count\<close> tasks created by \<^verbatim>\<open>asyncio.create_task\<close> and still
  sleeping, each with its key and the time its sleep ends.
\<close>

record limiter =
  rate_limits :: "string \<rightharpoonup> rate_limit"
  request_history :: "string \<Rightarrow> time list"
  last_request_time :: "string \<Rightarrow> time"
  burst_count :: "string \<Rightarrow> int"
  backoff_multiplier :: "string \<Rightarrow> real"
  enabled :: bool
  default_delay :: real
  max_backoff :: real
  reset_tasks :: "(string \<times> time) list"

definition default_rate_limits :: "(string \<times> rate_limit) list" where
  "default_rate_limits =
     [(''twitter'', RateLimit 15 300 1000 5 2),
      (''instagram'', RateLimit 10 200 500 3 3),
      (''facebook'', RateLimit 20 400 1000 8 (5 / 2)),
      (''linkedin'', RateLimit 8 150 300 2 3),
      (''tiktok'', RateLimit 12 250 600 4 (5 / 2)),
      (''general'', RateLimit 30 500 2000 10 1)]"

text \<open>\<^verbatim>\<open>RateLimiter.__init__\<close>\<close>

definition init_limiter :: limiter where
  "init_limiter =
     \<lparr>rate_limits = map_of default_rate_limits,
      request_history = (\<lambda>_. []),
      last_request_time = (\<lambda>_. datetime_min),
      burst_count = (\<lambda>_. 0),
      backoff_multiplier = (\<lambda>_. 1),
      enabled = True,
      default_delay = 1,
      max_backoff = 60,
      reset_tasks = []\<rparr>"

text \<open>
  \<^verbatim>\<open>self.rate_limits.get(platform, self.rate_limits["general"])\<close>: the default is evaluated
  before \<^verbatim>\<open>get\<close> is called, so a missing \<^verbatim>\<open>"general"\<close> entry raises.
\<close>

definition get_or_general :: "limiter \<Rightarrow> string \<Rightarrow> py_error + rate_limit" where
  "get_or_general s platform =
     (case rate_limits s ''general'' of
        None \<Rightarrow> Inl (KeyError ''general'')
      | Some g \<Rightarrow> Inr (case rate_limits s platform of None \<Rightarrow> g | Some rl \<Rightarrow> rl))"

text \<open>\<^verbatim>\<open>deque(maxlen=1000).append\<close>: a full deque drops its oldest entry.\<close>

definition deque_maxlen :: nat where
  "deque_maxlen = 1000"

definition deque_append :: "'a list \<Rightarrow> 'a \<Rightarrow> 'a list" where
  "deque_append xs x = (let ys = xs @ [x] in drop (length ys - deque_maxlen) ys)"

text \<open>\<^verbatim>\<open>sum(1 for req_time in history if req_time > cutoff)\<close>\<close>

definition count_since :: "time list \<Rightarrow> time \<Rightarrow> int" where
  "count_since history cutoff = int (length (filter (\<lambda>req_time. req_time > cutoff) history))"

definition is_in_backoff :: "limiter \<Rightarrow> string \<Rightarrow> time \<Rightarrow> py_error + bool" where
  "is_in_backoff s platform now =
     (if backoff_multiplier s platform \<le> 1 then Inr False
      else case rate_limits s platform of
             None \<Rightarrow> Inl (KeyError platform)
           | Some rl \<Rightarrow>
               (let last_request = last_request_time s platform;
                    backoff_duration = cooldown_period rl * backoff_multiplier s platform
                in Inr (now - last_request < backoff_duration)))"

definition check_rate_limits :: "limiter \<Rightarrow> string \<Rightarrow> rate_limit \<Rightarrow> time \<Rightarrow> bool" where
  "check_rate_limits s platform rl now =
     (let history = request_history s platform;
          cutoff_minute = now - 60;
          cutoff_hour = now - 3600;
          cutoff_day = now - 86400;
          requests_last_minute = count_since history cutoff_minute;
          requests_last_hour = count_since history cutoff_hour;
          requests_last_day = count_since history cutoff_day
      in if requests_last_minute \<ge> requests_per_minute rl then False
         else if requests_last_hour \<ge> requests_per_hour rl then False
         else if requests_last_day \<ge> requests_per_day rl then False
         else if burst_count s platform \<ge> burst_limit rl then False
         else True)"

definition record_request :: "limiter \<Rightarrow> string \<Rightarrow> time \<Rightarrow> py_error + limiter" where
  "record_request s platform now =
     (let s1 = s\<lparr>request_history :=
                   (request_history s)(platform := deque_append (request_history s platform) now),
                 last_request_time := (last_request_time s)(platform := now),
                 burst_count := (burst_count s)(platform := burst_count s platform + 1)\<rparr>
      in case get_or_general s1 platform of
           Inl e \<Rightarrow> Inl e
         | Inr rl \<Rightarrow>
             Inr (s1\<lparr>reset_tasks := reset_tasks s1 @ [(platform, now + cooldown_period rl)]\<rparr>))"

text \<open>The body of a \<^verbatim>\<open>_reset_burst_count\<close> task once its sleep is over.\<close>

definition reset_burst_count :: "string \<Rightarrow> limiter \<Rightarrow> limiter" where
  "reset_burst_count platform s =
     s\<lparr>burst_count := (burst_count s)(platform := max 0 (burst_count s platform - 1))\<rparr>"

text \<open>
  The event loop at time \<open>now\<close>: every sleeping task whose sleep has ended runs, in the
  order of creation; the others stay.
\<close>

definition run_due_tasks :: "time \<Rightarrow> limiter \<Rightarrow> limiter" where
  "run_due_tasks now s =
     (let due = filter (\<lambda>(p, t). t \<le> now) (reset_tasks s);
          rest = filter (\<lambda>(p, t). \<not> t \<le> now) (reset_tasks s)
      in fold (\<lambda>(p, t). reset_burst_count p) due (s\<lparr>reset_tasks := rest\<rparr>))"

definition acquire :: "limiter \<Rightarrow> string \<Rightarrow> time \<Rightarrow> py_error + (bool \<times> limiter)" where
  "acquire s platform0 now =
     (if \<not> enabled s then Inr (True, s)
      else let platform = lower platform0 in
        case get_or_general s platform of
          Inl e \<Rightarrow> Inl e
        | Inr rl \<Rightarrow>
            (case is_in_backoff s platform now of
               Inl e \<Rightarrow> Inl e
             | Inr True \<Rightarrow> Inr (False, s)
             | Inr False \<Rightarrow>
                 if \<not> check_rate_limits s platform rl now then Inr (False, s)
                 else (case record_request s platform now of
                         Inl e \<Rightarrow> Inl e
                       | Inr s' \<Rightarrow> Inr (True, s'))))"

text \<open>
  \<^verbatim>\<open>random.uniform(a, b)\<close> is \<^verbatim>\<open>a + (b - a) * random()\<close>; \<open>u\<close> is the value of
  \<^verbatim>\<open>random()\<close>, a number of the interval from 0 to 1.
\<close>

definition uniform :: "real \<Rightarrow> real \<Rightarrow> real \<Rightarrow> real" where
  "uniform a b u = a + (b - a) * u"

definition calculate_delay :: "limiter \<Rightarrow> string \<Rightarrow> rate_limit \<Rightarrow> time \<Rightarrow> real \<Rightarrow> real" where
  "calculate_delay s platform rl now u =
     (let last_request = last_request_time s platform;
          base_delay = cooldown_period rl;
          delay = base_delay * backoff_multiplier s platform;
          jitter = uniform (- jitter_range rl) (jitter_range rl) u;
          delay = max 0 (delay * (1 + jitter));
          time_since_last = now - last_request
      in if time_since_last < delay then delay - time_since_last else 0)"

text \<open>The result is the time slept by \<^verbatim>\<open>asyncio.sleep\<close>, 0 when the call does not sleep.\<close>

definition wait_if_needed :: "limiter \<Rightarrow> string \<Rightarrow> time \<Rightarrow> real \<Rightarrow> py_error + real" where
  "wait_if_needed s platform0 now u =
     (if \<not> enabled s then Inr 0
      else let platform = lower platform0 in
        case get_or_general s platform of
          Inl e \<Rightarrow> Inl e
        | Inr rl \<Rightarrow>
            (let delay = calculate_delay s platform rl now u
             in if delay > 0 then Inr delay else Inr 0))"

definition mark_request_success :: "limiter \<Rightarrow> string \<Rightarrow> limiter" where
  "mark_request_success s platform0 =
     (let platform = lower platform0 in
      if backoff_multiplier s platform > 1
      then s\<lparr>backoff_multiplier :=
               (backoff_multiplier s)(platform := max 1 (backoff_multiplier s platform * (8 / 10)))\<rparr>
      else s)"

definition mark_request_failed :: "limiter \<Rightarrow> string \<Rightarrow> string \<Rightarrow> time \<Rightarrow> limiter" where
  "mark_request_failed s platform0 error_type now =
     (let platform = lower platform0 in
      if error_type \<in> set [''rate_limit'', ''429'', ''too_many_requests'']
      then s\<lparr>backoff_multiplier :=
               (backoff_multiplier s)(platform :=
                  min (max_backoff s) (backoff_multiplier s platform * 2)),
             last_request_time := (last_request_time s)(platform := now)\<rparr>
      else if error_type \<in> set [''timeout'', ''connection_error'']
      then s\<lparr>backoff_multiplier :=
               (backoff_multiplier s)(platform :=
                  min (max_backoff s) (backoff_multiplier s platform * (3 / 2)))\<rparr>
      else s)"

definition set_rate_limit :: "limiter \<Rightarrow> string \<Rightarrow> rate_limit \<Rightarrow> limiter" where
  "set_rate_limit s platform rl = s\<lparr>rate_limits := (rate_limits s)(lower platform \<mapsto> rl)\<rparr>"

text \<open>\<^verbatim>\<open>reset(platform)\<close> with a platform, and \<^verbatim>\<open>reset()\<close> without.\<close>

definition reset :: "limiter \<Rightarrow> string option \<Rightarrow> limiter" where
  "reset s platform0 =
     (case platform0 of
        Some p \<Rightarrow>
          (if p \<noteq> [] then
             (let platform = lower p in
              s\<lparr>request_history := (request_history s)(platform := []),
                burst_count := (burst_count s)(platform := 0),
                backoff_multiplier := (backoff_multiplier s)(platform := 1),
                last_request_time := (last_request_time s)(platform := datetime_min)\<rparr>)
           else s\<lparr>request_history := (\<lambda>_. []), burst_count := (\<lambda>_. 0),
                  backoff_multiplier := (\<lambda>_. 1), last_request_time := (\<lambda>_. datetime_min)\<rparr>)
      | None \<Rightarrow>
          s\<lparr>request_history := (\<lambda>_. []), burst_count := (\<lambda>_. 0),
            backoff_multiplier := (\<lambda>_. 1), last_request_time := (\<lambda>_. datetime_min)\<rparr>)"

definition enable :: "limiter \<Rightarrow> limiter" where
  "enable s = s\<lparr>enabled := True\<rparr>"

definition disable :: "limiter \<Rightarrow> limiter" where
  "disable s = s\<lparr>enabled := False\<rparr>"

subsection \<open>Sequences of calls\<close>

text \<open>
  A caller's use of the limiter over time: calls of \<^verbatim>\<open>acquire\<close>, and the moments at which
  the caller yields to the event loop, so that the sleeping tasks that are due run.  The
  result lists what the calls of \<^verbatim>\<open>acquire\<close> returned, in order; an exception ends the run.
\<close>

datatype event = Acquire string time | Tick time

fun run :: "limiter \<Rightarrow> event list \<Rightarrow> py_error + (bool list \<times> limiter)" where
  "run s [] = Inr ([], s)"
| "run s (Tick now # es) = run (run_due_tasks now s) es"
| "run s (Acquire platform now # es) =
     (case acquire s platform now of
        Inl e \<Rightarrow> Inl e
      | Inr (b, s') \<Rightarrow>
          (case run s' es of
             Inl e \<Rightarrow> Inl e
           | Inr (bs, s'') \<Rightarrow> Inr (b # bs, s'')))"

text \<open>
  The times at which the calls of \<^verbatim>\<open>acquire\<close> of a run for the key \<open>k\<close> were granted, given
  what the calls returned; and the clock reading of an event.
\<close>

fun granted :: "string \<Rightarrow> event list \<Rightarrow> bool list \<Rightarrow> time list" where
  "granted k (Acquire platform now # es) (b # bs) =
     (if b \<and> lower platform = k then now # granted k es bs else granted k es bs)"
| "granted k (Tick now # es) bs = granted k es bs"
| "granted k es bs = []"

fun event_time :: "event \<Rightarrow> time" where
  "event_time (Acquire platform now) = now"
| "event_time (Tick now) = now"

text \<open>
  What a deque of \<open>deque_maxlen\<close> entries, empty at first, holds after the entries \<open>g\<close> were
  appended to it, one after the other.
\<close>

definition deque_of :: "'a list \<Rightarrow> 'a list" where
  "deque_of g = drop (length g - deque_maxlen) g"

text \<open>
  A caller that asks for a slot on \<^verbatim>\<open>"general"\<close> every 40 seconds and lets the event loop
  run one second after each call: round \<open>i\<close> is the call at second \<open>40 * i\<close>, and
  \<open>spaced_acquires n k\<close> are the \<open>k\<close> rounds from round \<open>n\<close> on.
\<close>

definition spaced_round :: "nat \<Rightarrow> event list" where
  "spaced_round i = [Acquire ''general'' (40 * real i), Tick (40 * real i + 1)]"

definition spaced_acquires :: "nat \<Rightarrow> nat \<Rightarrow> event list" where
  "spaced_acquires n k = concat (map spaced_round [n..<n + k])"

text \<open>The state of the limiter before round \<open>n\<close> of that caller.\<close>

definition spaced_inv :: "nat \<Rightarrow> limiter \<Rightarrow> bool" where
  "spaced_inv n s \<longleftrightarrow>
     rate_limits s = rate_limits init_limiter \<and> enabled s
     \<and> backoff_multiplier s ''general'' = 1 \<and> burst_count s ''general'' = 0
     \<and> reset_tasks s = []
     \<and> length (request_history s ''general'') = min n 1000
     \<and> distinct (request_history s ''general'')
     \<and> set (request_history s ''general'') \<subseteq> (\<lambda>i. 40 * real i) ` {i. i < n}"

text \<open>
  What links the limiter to the requests granted so far for the key \<open>k\<close>, \<open>g\<close> in the order
  of the grants, when the clock has reached \<open>now\<close>: the history of \<open>k\<close> is the deque of \<open>g\<close>,
  and each ceiling that the deque can hold bounds the grants of its trailing window.
\<close>

definition window_inv :: "string \<Rightarrow> rate_limit \<Rightarrow> limiter \<Rightarrow> time list \<Rightarrow> time \<Rightarrow> bool" where
  "window_inv k rl s g now \<longleftrightarrow>
     enabled s \<and> get_or_general s k = Inr rl \<and> request_history s k = deque_of g
     \<and> sorted g \<and> (\<forall>x \<in> set g. x \<le> now)
     \<and> (requests_per_minute rl \<le> 1000 \<longrightarrow>
          count_since g (now - 60) \<le> max 0 (requests_per_minute rl))
     \<and> (requests_per_hour rl \<le> 1000 \<longrightarrow>
          count_since g (now - 3600) \<le> max 0 (requests_per_hour rl))
     \<and> (requests_per_day rl \<le> 1000 \<longrightarrow>
          count_since g (now - 86400) \<le> max 0 (requests_per_day rl))"

subsection \<open>States a limiter can be in\<close>

text \<open>
  The states reached from a new \<^verbatim>\<open>RateLimiter()\<close> by its public methods and by the event
  loop running the burst-reset tasks.
\<close>

inductive reachable :: "limiter \<Rightarrow> bool" where
  r_init: "reachable init_limiter"
| r_acquire: "reachable s \<Longrightarrow> acquire s platform now = Inr (b, s') \<Longrightarrow> reachable s'"
| r_tick: "reachable s \<Longrightarrow> reachable (run_due_tasks now s)"
| r_success: "reachable s \<Longrightarrow> reachable (mark_request_success s platform)"
| r_failed: "reachable s \<Longrightarrow> reachable (mark_request_failed s platform error_type now)"
| r_set_rate_limit: "reachable s \<Longrightarrow> reachable (set_rate_limit s platform rl)"
| r_reset: "reachable s \<Longrightarrow> reachable (reset s platform_opt)"
| r_enable: "reachable s \<Longrightarrow> reachable (enable s)"
| r_disable: "reachable s \<Longrightarrow> reachable (disable s)"

text \<open>
  Consecutive calls of \<^verbatim>\<open>mark_request_failed\<close> for one key, each with its error type and
  the clock reading of the call, with no other call in between.
\<close>

definition consecutive_failures :: "limiter \<Rightarrow> string \<Rightarrow> (string \<times> time) list \<Rightarrow> limiter" where
  "consecutive_failures s platform calls =
     fold (\<lambda>(error_type, now) s. mark_request_failed s platform error_type now) calls s"

definition rate_limit_error_types :: "string set" where
  "rate_limit_error_types = {''rate_limit'', ''429'', ''too_many_requests''}"

text \<open>The bounds every reachable state keeps on the backoff multipliers.\<close>

definition backoff_inv :: "limiter \<Rightarrow> bool" where
  "backoff_inv s \<longleftrightarrow>
     max_backoff s = 60 \<and> (\<forall>k. 1 \<le> backoff_multiplier s k \<and> backoff_multiplier s k \<le> 60)"

section \<open>Proxy manager (scraper/core/proxy\_manager.py)\<close>

record proxy =
  url :: string
  protocol :: string
  ip :: string
  port :: int
  country :: "string option"
  anonymity :: "string option"
  speed :: "real option"
  last_checked :: "time option"
  is_working :: bool
  fail_count :: int
  success_count :: int

text \<open>
  \<^verbatim>\<open>self.proxies\<close> and \<^verbatim>\<open>self.working_proxies\<close> are lists of references to the same
  \<^verbatim>\<open>Proxy\<close> objects, so a field written through one list is seen through the other.  The
  objects live in \<open>heap\<close>, the lists hold their addresses, and \<open>next_ref\<close> is the address of
  the next object created.  The cache file is outside the state: what
  \<^verbatim>\<open>_load_cached_proxies\<close> reads from it is an argument and \<^verbatim>\<open>_save_cached_proxies\<close>
  changes nothing here.
\<close>

type_synonym ref = nat

record proxy_manager =
  use_proxies :: bool
  proxy_timeout :: int
  max_proxy_retries :: int
  rotation_interval :: int
  heap :: "ref \<Rightarrow> proxy"
  next_ref :: ref
  proxies :: "ref list"
  working_proxies :: "ref list"
  failed_proxies :: "string set"
  last_rotation :: time
  current_proxy :: "ref option"

text \<open>The addresses of the working subset, in the order of the list.\<close>

definition working_urls :: "proxy_manager \<Rightarrow> string list" where
  "working_urls s = map (\<lambda>w. url (heap s w)) (working_proxies s)"

definition alloc :: "proxy \<Rightarrow> proxy_manager \<Rightarrow> ref \<times> proxy_manager" where
  "alloc p s = (next_ref s, s\<lparr>heap := (heap s)(next_ref s := p), next_ref := Suc (next_ref s)\<rparr>)"

text \<open>
  \<^verbatim>\<open>_load_cached_proxies\<close>: \<open>items\<close> are the entries read from the cache file (none when the
  file is missing or unreadable), as the \<^verbatim>\<open>Proxy\<close> objects built from them;
  \<^verbatim>\<open>last_checked\<close> is not read back.
\<close>

definition load_cached_proxy :: "proxy \<Rightarrow> proxy_manager \<Rightarrow> proxy_manager" where
  "load_cached_proxy item s =
     (let (r, s1) = alloc (item\<lparr>last_checked := None\<rparr>) s;
          s2 = (if is_working item then s1\<lparr>working_proxies := working_proxies s1 @ [r]\<rparr> else s1)
      in s2\<lparr>proxies := proxies s2 @ [r]\<rparr>)"

definition load_cached_proxies :: "proxy list \<Rightarrow> proxy_manager \<Rightarrow> proxy_manager" where
  "load_cached_proxies items s = fold load_cached_proxy items s"

text \<open>
  \<^verbatim>\<open>ProxyManager.__init__\<close>.  An address at which no object has been created yet holds
  \<open>no_proxy\<close>; no list refers to such an address.
\<close>

definition no_proxy :: proxy where
  "no_proxy =
     \<lparr>url = [], protocol = [], ip = [], port = 0, country = None, anonymity = None,
      speed = None, last_checked = None, is_working = False, fail_count = 0,
      success_count = 0\<rparr>"

definition init_proxy_manager ::
  "bool \<Rightarrow> int \<Rightarrow> int \<Rightarrow> int \<Rightarrow> time \<Rightarrow> proxy list \<Rightarrow> proxy_manager" where
  "init_proxy_manager use timeout retries interval now cached =
     load_cached_proxies cached
       \<lparr>use_proxies = use, proxy_timeout = timeout, max_proxy_retries = retries,
        rotation_interval = interval, heap = (\<lambda>_. no_proxy), next_ref = 0,
        proxies = [], working_proxies = [], failed_proxies = {},
        last_rotation = now, current_proxy = None\<rparr>"

text \<open>
  \<^verbatim>\<open>_fetch_proxies\<close>: \<open>found\<close> is what the four sources returned, in the order of the sources
  (a source that failed returned nothing).  The sources build each \<^verbatim>\<open>Proxy\<close> without its
  health fields, which take the defaults of the dataclass.  Then the duplicates by URL are
  dropped, the first of each URL staying.
\<close>

definition new_proxy :: "proxy \<Rightarrow> proxy" where
  "new_proxy p = p\<lparr>last_checked := None, is_working := True, fail_count := 0, success_count := 0\<rparr>"

definition extend_proxies :: "proxy \<Rightarrow> proxy_manager \<Rightarrow> proxy_manager" where
  "extend_proxies p s = (let (r, s1) = alloc (new_proxy p) s in s1\<lparr>proxies := proxies s1 @ [r]\<rparr>)"

fun unique_proxies :: "(ref \<Rightarrow> proxy) \<Rightarrow> string list \<Rightarrow> ref list \<Rightarrow> ref list" where
  "unique_proxies h seen_urls [] = []"
| "unique_proxies h seen_urls (r # rs) =
     (if url (h r) \<notin> set seen_urls
      then r # unique_proxies h (url (h r) # seen_urls) rs
      else unique_proxies h seen_urls rs)"

definition fetch_proxies :: "proxy list \<Rightarrow> proxy_manager \<Rightarrow> proxy_manager" where
  "fetch_proxies found s =
     (let s1 = fold extend_proxies found s
      in s1\<lparr>proxies := unique_proxies (heap s1) [] (proxies s1)\<rparr>)"

text \<open>
  \<^verbatim>\<open>_validate_proxies\<close>: \<open>responds u\<close> tells whether one of the test URLs answers 200
  through the proxy of URL \<open>u\<close>.  The checks run concurrently; they are taken here in the order
  of \<^verbatim>\<open>self.proxies\<close>, which fixes the order, not the members, of \<^verbatim>\<open>working_proxies\<close>.
\<close>

definition validate_proxy :: "(string \<Rightarrow> bool) \<Rightarrow> time \<Rightarrow> ref \<Rightarrow> proxy_manager \<Rightarrow> proxy_manager" where
  "validate_proxy responds now r s =
     (if responds (url (heap s r))
      then s\<lparr>heap := (heap s)(r := (heap s r)\<lparr>is_working := True, last_checked := Some now\<rparr>),
             working_proxies := working_proxies s @ [r]\<rparr>
      else s\<lparr>heap := (heap s)(r := (heap s r)\<lparr>is_working := False\<rparr>)\<rparr>)"

definition validate_proxies :: "(string \<Rightarrow> bool) \<Rightarrow> time \<Rightarrow> proxy_manager \<Rightarrow> proxy_manager" where
  "validate_proxies responds now s = fold (validate_proxy responds now) (proxies s) s"

text \<open>\<^verbatim>\<open>initialize\<close>\<close>

definition initialize :: "proxy list \<Rightarrow> (string \<Rightarrow> bool) \<Rightarrow> time \<Rightarrow> proxy_manager \<Rightarrow> proxy_manager" where
  "initialize found responds now s =
     (if \<not> use_proxies s then s else validate_proxies responds now (fetch_proxies found s))"

definition should_rotate :: "proxy_manager \<Rightarrow> time \<Rightarrow> bool" where
  "should_rotate s now \<longleftrightarrow>
     now - last_rotation s > real_of_int (rotation_interval s) \<or> length (working_proxies s) < 5"

text \<open>
  \<^verbatim>\<open>random.shuffle\<close>: for \<open>i\<close> from the last index down to 1, swap the entries \<open>i\<close> and
  \<open>j\<close>, \<open>j\<close> drawn from \<open>0..i\<close>; \<open>draw i\<close> is the number drawn at index \<open>i\<close>.
\<close>

fun shuffle_from :: "(nat \<Rightarrow> nat) \<Rightarrow> nat \<Rightarrow> 'a list \<Rightarrow> 'a list" where
  "shuffle_from draw 0 xs = xs"
| "shuffle_from draw (Suc i) xs =
     (let j = draw (Suc i) mod (Suc i + 1)
      in shuffle_from draw i (xs[Suc i := xs ! j, j := xs ! Suc i]))"

definition shuffle :: "(nat \<Rightarrow> nat) \<Rightarrow> 'a list \<Rightarrow> 'a list" where
  "shuffle draw xs = shuffle_from draw (length xs - 1) xs"

text \<open>
  What a call that may rotate takes from outside: the draws of the shuffle, the proxies the
  sources return and the outcome of the validation.
\<close>

record rotation_env =
  shuffle_draw :: "nat \<Rightarrow> nat"
  found_proxies :: "proxy list"
  responds_through :: "string \<Rightarrow> bool"

definition rotate_proxies :: "proxy_manager \<Rightarrow> time \<Rightarrow> rotation_env \<Rightarrow> proxy_manager" where
  "rotate_proxies s now env =
     (let s1 = s\<lparr>last_rotation := now\<rparr>
      in if length (working_proxies s1) \<ge> 10
         then s1\<lparr>working_proxies := shuffle (shuffle_draw env) (working_proxies s1)\<rparr>
         else validate_proxies (responds_through env) now (fetch_proxies (found_proxies env) s1))"

text \<open>
  \<^verbatim>\<open>get_proxy\<close>; \<^verbatim>\<open>random.choice(seq)\<close> is \<^verbatim>\<open>seq[randbelow(len(seq))]\<close> and \<open>pick\<close> is
  the number drawn.
\<close>

definition get_proxy ::
  "proxy_manager \<Rightarrow> time \<Rightarrow> rotation_env \<Rightarrow> nat \<Rightarrow> string option \<times> proxy_manager" where
  "get_proxy s now env pick =
     (if \<not> use_proxies s then (None, s)
      else let s1 = (if should_rotate s now then rotate_proxies s now env else s)
           in if working_proxies s1 \<noteq> []
              then let r = working_proxies s1 ! (pick mod length (working_proxies s1))
                   in (Some (url (heap s1 r)), s1\<lparr>current_proxy := Some r\<rparr>)
              else (None, s1))"

definition mark_proxy_failed :: "proxy_manager \<Rightarrow> string \<Rightarrow> proxy_manager" where
  "mark_proxy_failed s proxy_url =
     (if \<not> use_proxies s then s
      else case find (\<lambda>r. url (heap s r) = proxy_url) (proxies s) of
             None \<Rightarrow> s
           | Some r \<Rightarrow>
               (let p = (heap s r)\<lparr>fail_count := fail_count (heap s r) + 1, is_working := False\<rparr>;
                    s1 = s\<lparr>heap := (heap s)(r := p)\<rparr>
                in if fail_count p \<ge> max_proxy_retries s1
                   then s1\<lparr>failed_proxies := insert proxy_url (failed_proxies s1),
                           working_proxies :=
                             filter (\<lambda>w. url (heap s1 w) \<noteq> proxy_url) (working_proxies s1)\<rparr>
                   else s1))"

definition mark_proxy_success :: "proxy_manager \<Rightarrow> string \<Rightarrow> time \<Rightarrow> proxy_manager" where
  "mark_proxy_success s proxy_url now =
     (if \<not> use_proxies s then s
      else case find (\<lambda>r. url (heap s r) = proxy_url) (proxies s) of
             None \<Rightarrow> s
           | Some r \<Rightarrow>
               (let p = (heap s r)\<lparr>success_count := success_count (heap s r) + 1,
                                   is_working := True, last_checked := Some now\<rparr>;
                    s1 = s\<lparr>heap := (heap s)(r := p)\<rparr>
                in if proxy_url \<notin> set (map (\<lambda>w. url (heap s1 w)) (working_proxies s1))
                   then s1\<lparr>working_proxies := working_proxies s1 @ [r]\<rparr>
                   else s1))"


text \<open>
  What every state of a proxy manager satisfies: the lists refer to objects that exist, every
  address of the working subset is the address of a known proxy, and no failure count is
  negative.
\<close>

definition pm_wf :: "proxy_manager \<Rightarrow> bool" where
  "pm_wf s \<longleftrightarrow>
     (\<forall>r \<in> set (proxies s) \<union> set (working_proxies s). r < next_ref s)
     \<and> set (working_urls s) \<subseteq> set (map (\<lambda>r. url (heap s r)) (proxies s))
     \<and> (\<forall>r \<in> set (proxies s). 0 \<le> fail_count (heap s r))"

text \<open>
  The states reached from a new \<^verbatim>\<open>ProxyManager\<close> by its public methods; the cache file
  holds what an earlier run saved, so its failure counts are not negative.
\<close>

inductive pm_reachable :: "proxy_manager \<Rightarrow> bool" where
  p_init: "\<forall>p \<in> set cached. 0 \<le> fail_count p \<Longrightarrow>
           pm_reachable (init_proxy_manager use timeout retries interval now cached)"
| p_initialize: "pm_reachable s \<Longrightarrow> pm_reachable (initialize found responds now s)"
| p_get_proxy: "pm_reachable s \<Longrightarrow> get_proxy s now env pick = (res, s') \<Longrightarrow> pm_reachable s'"
| p_failed: "pm_reachable s \<Longrightarrow> pm_reachable (mark_proxy_failed s proxy_url)"
| p_success: "pm_reachable s \<Longrightarrow> pm_reachable (mark_proxy_success s proxy_url now)"

text \<open>
  A pool of two working proxies, as loaded from a cache file, with the default threshold 3.
\<close>

definition demo_proxy :: "string \<Rightarrow> proxy" where
  "demo_proxy u =
     \<lparr>url = u, protocol = ''http'', ip = ''10.0.0.1'', port = 8080, country = None,
      anonymity = None, speed = None, last_checked = None, is_working = True, fail_count = 0,
      success_count = 0\<rparr>"

definition demo_pool :: proxy_manager where
  "demo_pool =
     init_proxy_manager True 10 3 300 0
       [demo_proxy ''http://10.0.0.1:8080'', demo_proxy ''http://10.0.0.2:8080'']"

section \<open>Request dispatch (scraper/core/base\_scraper.py)\<close>

text \<open>
  The exceptions of the request path.  \<^verbatim>\<open>aiohttp.ClientResponseError\<close> (with its status) and
  the connection errors are subclasses of \<^verbatim>\<open>aiohttp.ClientError\<close>;
  \<^verbatim>\<open>asyncio.TimeoutError\<close> is not.  \<open>RetryError\<close> is what tenacity raises when it gives up,
  around the last exception.
\<close>

datatype exn =
    ClientResponseError nat
  | ClientConnectionError
  | TimeoutError
  | PyError py_error
  | OtherError
  | RetryError exn

text \<open>\<^verbatim>\<open>isinstance(e, aiohttp.ClientError)\<close>\<close>

fun is_client_error :: "exn \<Rightarrow> bool" where
  "is_client_error (ClientResponseError status) = True"
| "is_client_error ClientConnectionError = True"
| "is_client_error e = False"

text \<open>\<^verbatim>\<open>retry_if_exception_type((aiohttp.ClientError, asyncio.TimeoutError))\<close>\<close>

definition retry_if_exception_type :: "exn \<Rightarrow> bool" where
  "retry_if_exception_type e \<longleftrightarrow> is_client_error e \<or> e = TimeoutError"

text \<open>\<^verbatim>\<open>stop_after_attempt(3)\<close>\<close>

definition stop_after_attempt :: "nat \<Rightarrow> bool" where
  "stop_after_attempt attempt_number \<longleftrightarrow> attempt_number \<ge> 3"

text \<open>
  The parts of a \<^verbatim>\<open>BaseScraper\<close> the request path uses; a component switched off is
  \<^verbatim>\<open>None\<close>.  The user-agent rotator only fills a header and is left out, and so is the
  semaphore of \<^verbatim>\<open>make_request\<close>, which bounds concurrency and decides no outcome.
\<close>

record scraper =
  scraper_platform :: string
  scraper_use_proxies :: bool
  proxy_manager :: "proxy_manager option"
  rate_limiter :: "limiter option"

text \<open>
  What one attempt takes from outside: the clock when it waits, when it asks for a proxy and
  when the response is there; the random draws; and what \<^verbatim>\<open>session.request\<close> does, a
  response with its status or an exception.
\<close>

datatype transport = Responds nat | Raises exn

record attempt_env =
  clock_wait :: time
  jitter_draw :: real
  clock_proxy :: time
  rotation :: rotation_env
  choice_draw :: nat
  transport :: transport
  clock_response :: time

text \<open>Python's truth value of \<^verbatim>\<open>proxy\<close>: neither \<^verbatim>\<open>None\<close> nor the empty string.\<close>

definition truthy :: "string option \<Rightarrow> bool" where
  "truthy proxy = (case proxy of None \<Rightarrow> False | Some u \<Rightarrow> u \<noteq> [])"

text \<open>
  \<^verbatim>\<open>if self.rate_limiter: self.rate_limiter.mark_request_failed(self.platform, "rate_limit")\<close>
\<close>

definition report_rate_limited :: "scraper \<Rightarrow> time \<Rightarrow> scraper" where
  "report_rate_limited d now =
     (case rate_limiter d of
        None \<Rightarrow> d
      | Some rl \<Rightarrow>
          d\<lparr>rate_limiter :=
              Some (mark_request_failed rl (scraper_platform d) ''rate_limit'' now)\<rparr>)"

text \<open>\<^verbatim>\<open>if self.rate_limiter: self.rate_limiter.mark_request_success(self.platform)\<close>\<close>

definition report_request_success :: "scraper \<Rightarrow> scraper" where
  "report_request_success d =
     (case rate_limiter d of
        None \<Rightarrow> d
      | Some rl \<Rightarrow> d\<lparr>rate_limiter := Some (mark_request_success rl (scraper_platform d))\<rparr>)"

text \<open>\<^verbatim>\<open>if proxy and self.proxy_manager: await self.proxy_manager.mark_proxy_failed(proxy)\<close>\<close>

definition report_proxy_failed :: "scraper \<Rightarrow> string option \<Rightarrow> scraper" where
  "report_proxy_failed d proxy =
     (case proxy of
        None \<Rightarrow> d
      | Some u \<Rightarrow>
          (if u = [] then d
           else case proxy_manager d of
                  None \<Rightarrow> d
                | Some pm \<Rightarrow> d\<lparr>proxy_manager := Some (mark_proxy_failed pm u)\<rparr>))"

text \<open>\<^verbatim>\<open>if proxy and self.proxy_manager: await self.proxy_manager.mark_proxy_success(proxy)\<close>\<close>

definition report_proxy_success :: "scraper \<Rightarrow> string option \<Rightarrow> time \<Rightarrow> scraper" where
  "report_proxy_success d proxy now =
     (case proxy of
        None \<Rightarrow> d
      | Some u \<Rightarrow>
          (if u = [] then d
           else case proxy_manager d of
                  None \<Rightarrow> d
                | Some pm \<Rightarrow> d\<lparr>proxy_manager := Some (mark_proxy_success pm u now)\<rparr>))"

text \<open>
  The body of \<^verbatim>\<open>_make_request_with_retry\<close> up to the request: the wait of the rate limiter
  and the choice of a proxy.  The result is the proxy the request goes through.
\<close>

definition before_request ::
  "scraper \<Rightarrow> string option \<Rightarrow> attempt_env \<Rightarrow> exn + (string option \<times> scraper)" where
  "before_request d proxy env =
     (case (case rate_limiter d of
              None \<Rightarrow> Inr 0
            | Some rl \<Rightarrow>
                wait_if_needed rl (scraper_platform d) (clock_wait env) (jitter_draw env)) of
        Inl e \<Rightarrow> Inl (PyError e)
      | Inr waited \<Rightarrow>
          (if scraper_use_proxies d \<and> \<not> truthy proxy
           then (case proxy_manager d of
                   None \<Rightarrow> Inl (PyError AttributeError)
                 | Some pm \<Rightarrow>
                     (let (chosen, pm') =
                            get_proxy pm (clock_proxy env) (rotation env) (choice_draw env)
                      in Inr (chosen, d\<lparr>proxy_manager := Some pm'\<rparr>)))
           else Inr (proxy, d)))"

text \<open>
  One run of the body of \<^verbatim>\<open>_make_request_with_retry\<close>: the exception it raises or the
  status of the response it returns, and the scraper after it.  The \<^verbatim>\<open>except\<close> clause logs
  and raises again.
\<close>

definition attempt ::
  "scraper \<Rightarrow> string option \<Rightarrow> attempt_env \<Rightarrow> (exn + nat) \<times> scraper" where
  "attempt d proxy env =
     (case before_request d proxy env of
        Inl e \<Rightarrow> (Inl e, d)
      | Inr (proxy1, d1) \<Rightarrow>
          (case transport env of
             Raises e \<Rightarrow> (Inl e, d1)
           | Responds status \<Rightarrow>
               if status = 429
               then (Inl (ClientResponseError 429),
                     report_proxy_failed (report_rate_limited d1 (clock_response env)) proxy1)
               else if status \<ge> 400
               then (Inl (ClientResponseError status), report_proxy_failed d1 proxy1)
               else (Inr status,
                     report_proxy_success (report_request_success d1) proxy1 (clock_response env))))"

text \<open>
  The \<^verbatim>\<open>@retry\<close> decorator of tenacity around the body: after an attempt that raised, an
  exception the \<^verbatim>\<open>retry\<close> predicate rejects is raised as it is; otherwise, when \<^verbatim>\<open>stop\<close>
  holds of the number of the attempt, \<open>RetryError\<close> is raised, and else the body runs again
  with the arguments of the first call.  \<open>envs n\<close> is the outside of attempt \<open>n\<close>.  The third
  component of the result is the number of the last attempt made.
\<close>

function retrying ::
  "scraper \<Rightarrow> string option \<Rightarrow> (nat \<Rightarrow> attempt_env) \<Rightarrow> nat \<Rightarrow> (exn + nat) \<times> scraper \<times> nat" where
  "retrying d proxy envs attempt_number =
     (case attempt d proxy (envs attempt_number) of
        (Inr response, d') \<Rightarrow> (Inr response, d', attempt_number)
      | (Inl e, d') \<Rightarrow>
          if \<not> retry_if_exception_type e then (Inl e, d', attempt_number)
          else if stop_after_attempt attempt_number then (Inl (RetryError e), d', attempt_number)
          else retrying d' proxy envs (attempt_number + 1))"
  by pat_completeness auto
termination
  by (relation "measure (\<lambda>(d, proxy, envs, attempt_number). 3 - attempt_number)")
     (auto simp: stop_after_attempt_def)

declare retrying.simps [simp del]

text \<open>\<^verbatim>\<open>make_request\<close>: the first attempt has number 1.\<close>

definition make_request ::
  "scraper \<Rightarrow> string option \<Rightarrow> (nat \<Rightarrow> attempt_env) \<Rightarrow> (exn + nat) \<times> scraper \<times> nat" where
  "make_request d proxy envs = retrying d proxy envs 1"

text \<open>
  Scrapers and an outside to run them in: one with no rate limiter and no proxies, one with a
  new rate limiter and the two-proxy pool; an outside with the clock at 0 where
  \<^verbatim>\<open>session.request\<close> does as told.
\<close>

definition bare_scraper :: scraper where
  "bare_scraper =
     \<lparr>scraper_platform = ''twitter'', scraper_use_proxies = False, proxy_manager = None,
      rate_limiter = None\<rparr>"

definition full_scraper :: scraper where
  "full_scraper =
     \<lparr>scraper_platform = ''twitter'', scraper_use_proxies = True,
      proxy_manager = Some demo_pool, rate_limiter = Some init_limiter\<rparr>"

definition outside :: "transport \<Rightarrow> attempt_env" where
  "outside t =
     \<lparr>clock_wait = 0, jitter_draw = 0, clock_proxy = 0,
      rotation = \<lparr>shuffle_draw = (\<lambda>_. 0), found_proxies = [], responds_through = (\<lambda>_. False)\<rparr>,
      choice_draw = 0, transport = t, clock_response = 0\<rparr>"

section \<open>Verified properties\<close>

subsection \<open>Rate limiter\<close>

text \<open>What each operation does to the backoff multipliers, and the invariant.\<close>

lemma mark_request_failed_max_backoff:
  "max_backoff (mark_request_failed s platform error_type now) = max_backoff s"
  by (simp add: mark_request_failed_def Let_def)

lemma mark_request_failed_backoff:
  "backoff_multiplier (mark_request_failed s platform error_type now) k =
     (if k = lower platform then
        (if error_type \<in> rate_limit_error_types
         then min (max_backoff s) (backoff_multiplier s k * 2)
         else if error_type \<in> {''timeout'', ''connection_error''}
         then min (max_backoff s) (backoff_multiplier s k * (3 / 2))
         else backoff_multiplier s k)
      else backoff_multiplier s k)"
  by (simp add: mark_request_failed_def Let_def rate_limit_error_types_def)

lemma failed_inv:
  assumes "backoff_inv s"
  shows "backoff_inv (mark_request_failed s platform error_type now)"
proof -
  from assms have m: "max_backoff s = 60"
    and a: "\<And>k. 1 \<le> backoff_multiplier s k \<and> backoff_multiplier s k \<le> 60"
    by (auto simp: backoff_inv_def)
  have "1 \<le> backoff_multiplier (mark_request_failed s platform error_type now) k
      \<and> backoff_multiplier (mark_request_failed s platform error_type now) k \<le> 60" for k
    using a[of k] unfolding mark_request_failed_backoff m by (auto simp: min_def)
  then show ?thesis
    unfolding backoff_inv_def mark_request_failed_max_backoff using m by blast
qed

lemma mark_request_success_max_backoff:
  "max_backoff (mark_request_success s platform) = max_backoff s"
  by (simp add: mark_request_success_def Let_def)

lemma mark_request_success_backoff:
  "backoff_multiplier (mark_request_success s platform) k =
     (if k = lower platform \<and> backoff_multiplier s k > 1
      then max 1 (backoff_multiplier s k * (8 / 10))
      else backoff_multiplier s k)"
  by (auto simp: mark_request_success_def Let_def)

lemma success_inv:
  assumes "backoff_inv s"
  shows "backoff_inv (mark_request_success s platform)"
proof -
  from assms have m: "max_backoff s = 60"
    and a: "\<And>k. 1 \<le> backoff_multiplier s k \<and> backoff_multiplier s k \<le> 60"
    by (auto simp: backoff_inv_def)
  have "1 \<le> backoff_multiplier (mark_request_success s platform) k
      \<and> backoff_multiplier (mark_request_success s platform) k \<le> 60" for k
    using a[of k] unfolding mark_request_success_backoff by (auto simp: max_def)
  then show ?thesis
    unfolding backoff_inv_def mark_request_success_max_backoff using m by blast
qed

lemma reset_inv:
  assumes "backoff_inv s"
  shows "backoff_inv (reset s platform_opt)"
proof -
  from assms have m: "max_backoff s = 60"
    and a: "\<And>k. 1 \<le> backoff_multiplier s k \<and> backoff_multiplier s k \<le> 60"
    by (auto simp: backoff_inv_def)
  have "max_backoff (reset s platform_opt) = 60"
    using m by (simp add: reset_def Let_def split: option.splits)
  moreover have "1 \<le> backoff_multiplier (reset s platform_opt) k
      \<and> backoff_multiplier (reset s platform_opt) k \<le> 60" for k
    using a[of k] by (simp add: reset_def Let_def split: option.splits)
  ultimately show ?thesis unfolding backoff_inv_def by blast
qed

lemma fold_reset_backoff:
  "backoff_multiplier (fold (\<lambda>(p, t). reset_burst_count p) xs s) = backoff_multiplier s
   \<and> max_backoff (fold (\<lambda>(p, t). reset_burst_count p) xs s) = max_backoff s"
  by (induction xs arbitrary: s) (auto simp: reset_burst_count_def)

lemma run_due_tasks_backoff:
  "backoff_multiplier (run_due_tasks now s) = backoff_multiplier s"
  "max_backoff (run_due_tasks now s) = max_backoff s"
  by (simp_all add: run_due_tasks_def Let_def fold_reset_backoff)

lemma acquire_backoff:
  assumes "acquire s platform now = Inr (b, s')"
  shows "backoff_multiplier s' = backoff_multiplier s \<and> max_backoff s' = max_backoff s"
  using assms
  by (auto simp: acquire_def record_request_def Let_def
           split: if_splits sum.splits bool.splits)

lemma reachable_backoff_inv: "reachable s \<Longrightarrow> backoff_inv s"
proof (induction rule: reachable.induct)
  case r_init
  show ?case by (simp add: backoff_inv_def init_limiter_def)
next
  case (r_acquire s platform now b s')
  then show ?case using acquire_backoff[OF r_acquire.hyps(2)] by (simp add: backoff_inv_def)
next
  case (r_tick s now)
  then show ?case by (simp add: backoff_inv_def run_due_tasks_backoff)
next
  case (r_success s platform)
  from r_success.IH show ?case by (rule success_inv)
next
  case (r_failed s platform error_type now)
  from r_failed.IH show ?case by (rule failed_inv)
next
  case (r_set_rate_limit s platform rl)
  then show ?case by (simp add: backoff_inv_def set_rate_limit_def)
next
  case (r_reset s platform_opt)
  from r_reset.IH show ?case by (rule reset_inv)
next
  case (r_enable s)
  then show ?case by (simp add: backoff_inv_def enable_def)
next
  case (r_disable s)
  then show ?case by (simp add: backoff_inv_def disable_def)
qed

lemma reachable_consecutive_failures:
  "reachable s \<Longrightarrow> reachable (consecutive_failures s platform calls)"
  unfolding consecutive_failures_def
  by (induction calls arbitrary: s) (auto intro: reachable.r_failed)

lemma consecutive_failures_snoc:
  "consecutive_failures s platform (calls @ [(e, now)])
     = mark_request_failed (consecutive_failures s platform calls) platform e now"
  by (simp add: consecutive_failures_def)

text \<open>The delay computed by \<^verbatim>\<open>_calculate_delay\<close>.\<close>

lemma uniform_symmetric_bound:
  assumes "0 \<le> u" and "u \<le> 1" and "0 \<le> r"
  shows "\<bar>uniform (- r) r u\<bar> \<le> r"
proof -
  have "uniform (- r) r u = r * (2 * u - 1)" by (simp add: uniform_def algebra_simps)
  moreover have "\<bar>2 * u - 1\<bar> \<le> 1" using assms(1,2) by (simp add: abs_le_iff)
  ultimately show ?thesis
    using assms(3) by (simp add: abs_mult mult_left_le)
qed

lemma calculate_delay_eq:
  "calculate_delay s platform rl now u =
     (let product = max 0 (cooldown_period rl * backoff_multiplier s platform
                            * (1 + uniform (- jitter_range rl) (jitter_range rl) u));
          elapsed = now - last_request_time s platform
      in if elapsed \<ge> product then 0 else product - elapsed)"
proof -
  define product where "product = max 0 (cooldown_period rl * backoff_multiplier s platform
                            * (1 + uniform (- jitter_range rl) (jitter_range rl) u))"
  define elapsed where "elapsed = now - last_request_time s platform"
  have "calculate_delay s platform rl now u
      = (if elapsed < product then product - elapsed else 0)"
    by (simp add: calculate_delay_def Let_def product_def elapsed_def)
  also have "\<dots> = (if elapsed \<ge> product then 0 else product - elapsed)"
    by (simp add: not_le)
  finally show ?thesis unfolding Let_def product_def elapsed_def .
qed

lemma calculate_delay_nonneg: "0 \<le> calculate_delay s platform rl now u"
proof -
  define product where "product = max 0 (cooldown_period rl * backoff_multiplier s platform
                            * (1 + uniform (- jitter_range rl) (jitter_range rl) u))"
  define elapsed where "elapsed = now - last_request_time s platform"
  have "calculate_delay s platform rl now u
      = (if elapsed < product then product - elapsed else 0)"
    by (simp add: calculate_delay_def Let_def product_def elapsed_def)
  also have "\<dots> \<ge> 0" by simp
  finally show ?thesis .
qed

text \<open>
  C7.  With the limiter enabled and a key configured with \<open>requests_per_minute = 2\<close>,
  \<open>burst_limit = 2\<close> and \<open>cooldown_period = 1\<close> (the hourly and daily ceilings, which the
  scenario leaves open, being at least 2), three calls of \<^verbatim>\<open>acquire\<close> on that key, made one
  after the other from a state with no history, no burst count and no backoff for the key,
  return true, true and false, in that order, whatever the clock reads at each call.
\<close>

theorem three_acquires_true_true_false:
  assumes "enabled s" and "rate_limits s ''general'' = Some g"
    and "rate_limits s (lower key) = Some rl"
    and "request_history s (lower key) = []" and "burst_count s (lower key) = 0"
    and "backoff_multiplier s (lower key) = 1"
    and "requests_per_minute rl = 2" and "burst_limit rl = 2" and "cooldown_period rl = 1"
    and "2 \<le> requests_per_hour rl" and "2 \<le> requests_per_day rl"
  shows "\<exists>s'. run s [Acquire key t1, Acquire key t2, Acquire key t3]
                = Inr ([True, True, False], s')"
  using assms
  by (simp add: acquire_def get_or_general_def is_in_backoff_def check_rate_limits_def
        record_request_def count_since_def deque_append_def deque_maxlen_def Let_def)

theorem three_acquires_true_true_false_witness:
  "\<exists>s'. run (set_rate_limit init_limiter ''Demo'' (RateLimit 2 100 1000 2 1))
           [Acquire ''Demo'' 63900000000, Acquire ''Demo'' 63900000000,
            Acquire ''Demo'' 63900000001]
         = Inr ([True, True, False], s')"
  using three_acquires_true_true_false
          [of "set_rate_limit init_limiter ''Demo'' (RateLimit 2 100 1000 2 1)"
              "RateLimit 30 500 2000 10 1" "''Demo''" "RateLimit 2 100 1000 2 1"
              63900000000 63900000000 63900000001]
  by (simp add: set_rate_limit_def init_limiter_def default_rate_limits_def RateLimit_def
        lower_def lower_char_def)

text \<open>
  C5.  In a run of consecutive \<^verbatim>\<open>mark_request_failed\<close> calls with a rate-limit error type
  for one key, started in any reachable state and with no other call in between, every call
  takes the key's backoff multiplier \<open>m\<close> to \<open>min 60 (2 * m)\<close>: it doubles the multiplier,
  capped at \<open>max_backoff = 60\<close>; the multiplier never decreases and never exceeds 60.
\<close>

theorem backoff_doubles_up_to_cap:
  assumes "reachable s" and "error_type \<in> rate_limit_error_types"
  shows "backoff_multiplier
           (consecutive_failures s platform (calls @ [(error_type, now)])) (lower platform)
         = min 60 (2 * backoff_multiplier (consecutive_failures s platform calls) (lower platform))
       \<and> backoff_multiplier (consecutive_failures s platform calls) (lower platform)
         \<le> backoff_multiplier
              (consecutive_failures s platform (calls @ [(error_type, now)])) (lower platform)
       \<and> backoff_multiplier
           (consecutive_failures s platform (calls @ [(error_type, now)])) (lower platform)
         \<le> 60"
proof -
  let ?sn = "consecutive_failures s platform calls"
  have inv: "backoff_inv ?sn"
    using assms(1) by (intro reachable_backoff_inv reachable_consecutive_failures)
  then have b: "max_backoff ?sn = 60" "1 \<le> backoff_multiplier ?sn (lower platform)"
    "backoff_multiplier ?sn (lower platform) \<le> 60"
    by (simp_all add: backoff_inv_def)
  have step: "backoff_multiplier (mark_request_failed ?sn platform error_type now) (lower platform)
      = min 60 (2 * backoff_multiplier ?sn (lower platform))"
    unfolding mark_request_failed_backoff using assms(2) b(1) by (simp add: mult.commute)
  show ?thesis
    unfolding consecutive_failures_snoc step using b by (simp add: min_def)
qed

theorem backoff_doubles_up_to_cap_witness:
  "reachable init_limiter \<and> ''rate_limit'' \<in> rate_limit_error_types
   \<and> backoff_multiplier
        (consecutive_failures init_limiter ''Twitter''
           ([(''429'', 10), (''rate_limit'', 20)] @ [(''rate_limit'', 30)])) (lower ''Twitter'')
      = min 60 (2 * backoff_multiplier
           (consecutive_failures init_limiter ''Twitter'' [(''429'', 10), (''rate_limit'', 20)])
           (lower ''Twitter''))
   \<and> backoff_multiplier
        (consecutive_failures init_limiter ''Twitter''
           ([(''429'', 10), (''rate_limit'', 20)] @ [(''rate_limit'', 30)])) (lower ''Twitter'')
      = 8"
  using backoff_doubles_up_to_cap
          [of init_limiter "''rate_limit''" "''Twitter''" "[(''429'', 10), (''rate_limit'', 20)]" 30]
        reachable.r_init
  by (simp add: rate_limit_error_types_def consecutive_failures_def mark_request_failed_def
        init_limiter_def lower_def lower_char_def Let_def)

text \<open>
  C6.  \<^verbatim>\<open>mark_request_success\<close> is not idempotent.  After two rate-limit failures the
  multiplier of a key is 4; one call of \<^verbatim>\<open>mark_request_success\<close> leaves 3.2, a second call
  leaves 2.56.
\<close>

theorem mark_request_success_twice_counterexample:
  "backoff_multiplier
     (mark_request_success (consecutive_failures init_limiter ''twitter''
        [(''rate_limit'', 10), (''rate_limit'', 20)]) ''twitter'') ''twitter'' = 16 / 5
   \<and> backoff_multiplier
     (mark_request_success (mark_request_success (consecutive_failures init_limiter ''twitter''
        [(''rate_limit'', 10), (''rate_limit'', 20)]) ''twitter'') ''twitter'') ''twitter'' = 64 / 25
   \<and> mark_request_success (mark_request_success (consecutive_failures init_limiter ''twitter''
        [(''rate_limit'', 10), (''rate_limit'', 20)]) ''twitter'') ''twitter''
     \<noteq> mark_request_success (consecutive_failures init_limiter ''twitter''
        [(''rate_limit'', 10), (''rate_limit'', 20)]) ''twitter''"
proof -
  let ?s = "consecutive_failures init_limiter ''twitter'' [(''rate_limit'', 10), (''rate_limit'', 20)]"
  have l: "lower ''twitter'' = ''twitter''" by (simp add: lower_def lower_char_def)
  have m: "backoff_multiplier ?s ''twitter'' = 4"
    by (simp add: consecutive_failures_def mark_request_failed_backoff mark_request_failed_max_backoff l
          rate_limit_error_types_def init_limiter_def)
  have a: "backoff_multiplier (mark_request_success ?s ''twitter'') ''twitter'' = 16 / 5"
    unfolding mark_request_success_backoff l m by simp
  have b: "backoff_multiplier (mark_request_success (mark_request_success ?s ''twitter'') ''twitter'') ''twitter'' = 64 / 25"
    unfolding mark_request_success_backoff[of "mark_request_success ?s ''twitter''"] l a by simp
  have "mark_request_success (mark_request_success ?s ''twitter'') ''twitter''
      \<noteq> mark_request_success ?s ''twitter''"
  proof
    assume "mark_request_success (mark_request_success ?s ''twitter'') ''twitter''
      = mark_request_success ?s ''twitter''"
    then have "backoff_multiplier (mark_request_success (mark_request_success ?s ''twitter'') ''twitter'') ''twitter''
       = backoff_multiplier (mark_request_success ?s ''twitter'') ''twitter''" by simp
    then show False unfolding a b by simp
  qed
  with a b show ?thesis by blast
qed

text \<open>
  C6, as the code has it.  In every reachable state a call of \<^verbatim>\<open>mark_request_success\<close> takes
  the key's multiplier \<open>m\<close> to \<open>max 1 (0.8 * m)\<close> and changes nothing else; a second call right
  after the first leaves the state of the first exactly when \<open>m \<le> 1.25\<close>, that is, when the
  first call already brought the multiplier down to its floor 1.
\<close>

theorem mark_request_success_decays_each_call:
  assumes "reachable s"
  shows "mark_request_success s platform
           = s\<lparr>backoff_multiplier := (backoff_multiplier s)
                 (lower platform := max 1 (backoff_multiplier s (lower platform) * (8 / 10)))\<rparr>
       \<and> (mark_request_success (mark_request_success s platform) platform
            = mark_request_success s platform
          \<longleftrightarrow> backoff_multiplier s (lower platform) \<le> 5 / 4)"
proof -
  let ?k = "lower platform"
  let ?m = "backoff_multiplier s ?k"
  have m1: "1 \<le> ?m" using reachable_backoff_inv[OF assms] by (simp add: backoff_inv_def)
  have first: "mark_request_success s platform
           = s\<lparr>backoff_multiplier := (backoff_multiplier s)(?k := max 1 (?m * (8 / 10)))\<rparr>"
  proof (cases "?m > 1")
    case True
    then show ?thesis by (simp add: mark_request_success_def Let_def)
  next
    case False
    with m1 have "?m = 1" by simp
    then have "(backoff_multiplier s)(?k := max 1 (?m * (8 / 10))) = backoff_multiplier s"
      by (auto simp: fun_eq_iff)
    then show ?thesis using False by (simp add: mark_request_success_def Let_def)
  qed
  have m': "backoff_multiplier (mark_request_success s platform) ?k = max 1 (?m * (8 / 10))"
    using m1 unfolding mark_request_success_backoff by (auto simp: max_def)
  have second: "(mark_request_success (mark_request_success s platform) platform
            = mark_request_success s platform) \<longleftrightarrow> ?m \<le> 5 / 4"
  proof (cases "?m \<le> 5 / 4")
    case True
    then have "backoff_multiplier (mark_request_success s platform) ?k = 1"
      unfolding m' by (simp add: max_def)
    then have "mark_request_success (mark_request_success s platform) platform
        = mark_request_success s platform"
      by (simp add: mark_request_success_def[of "mark_request_success s platform"] Let_def)
    with True show ?thesis by simp
  next
    case False
    then have a: "backoff_multiplier (mark_request_success s platform) ?k = ?m * (8 / 10)"
      and g: "?m * (8 / 10) > 1"
      unfolding m' by (simp_all add: max_def)
    have "backoff_multiplier (mark_request_success (mark_request_success s platform) platform) ?k
        = max 1 (?m * (8 / 10) * (8 / 10))"
      unfolding mark_request_success_backoff[of "mark_request_success s platform"] a using g by simp
    also have "\<dots> \<noteq> ?m * (8 / 10)" using g by (simp add: max_def)
    finally have "backoff_multiplier (mark_request_success (mark_request_success s platform) platform) ?k
       \<noteq> backoff_multiplier (mark_request_success s platform) ?k" unfolding a .
    then have "mark_request_success (mark_request_success s platform) platform
        \<noteq> mark_request_success s platform" by metis
    with False show ?thesis by simp
  qed
  from first second show ?thesis by blast
qed

theorem mark_request_success_decays_each_call_witness:
  "reachable init_limiter
   \<and> mark_request_success init_limiter ''Twitter''
       = init_limiter\<lparr>backoff_multiplier := (backoff_multiplier init_limiter)
           (lower ''Twitter'' := max 1 (backoff_multiplier init_limiter (lower ''Twitter'') * (8 / 10)))\<rparr>
   \<and> (mark_request_success (mark_request_success init_limiter ''Twitter'') ''Twitter''
        = mark_request_success init_limiter ''Twitter''
      \<longleftrightarrow> backoff_multiplier init_limiter (lower ''Twitter'') \<le> 5 / 4)"
  using mark_request_success_decays_each_call [OF reachable.r_init, of "''Twitter''"]
        reachable.r_init
  by blast

text \<open>
  C4.  With the limiter enabled, the time \<^verbatim>\<open>wait_if_needed\<close> sleeps is
  \<open>max 0 (cooldown_period * backoff_multiplier key * (1 + j))\<close> less the time elapsed since
  the key's last request, and 0 when the elapsed time is at least that product, for a jitter
  \<open>j\<close> with \<open>\<bar>j\<bar> \<le> jitter_range\<close>; it is never negative.  (Floats are read as reals.)
\<close>

theorem wait_if_needed_delay:
  assumes "enabled s" and "get_or_general s (lower platform) = Inr rl"
    and "0 \<le> u" and "u \<le> 1" and "0 \<le> jitter_range rl"
  shows "\<exists>j w. \<bar>j\<bar> \<le> jitter_range rl
           \<and> wait_if_needed s platform now u = Inr w
           \<and> w = (let product = max 0 (cooldown_period rl * backoff_multiplier s (lower platform) * (1 + j));
                       elapsed = now - last_request_time s (lower platform)
                   in if elapsed \<ge> product then 0 else product - elapsed)
           \<and> 0 \<le> w"
proof -
  let ?w = "calculate_delay s (lower platform) rl now u"
  have w0: "0 \<le> ?w" by (rule calculate_delay_nonneg)
  then have "\<not> 0 < ?w \<Longrightarrow> ?w = 0" by simp
  then have "wait_if_needed s platform now u = Inr ?w"
    using assms(1,2) unfolding wait_if_needed_def Let_def by auto
  moreover have "\<bar>uniform (- jitter_range rl) (jitter_range rl) u\<bar> \<le> jitter_range rl"
    using assms(3-5) by (rule uniform_symmetric_bound)
  moreover note w0 calculate_delay_eq[of s "lower platform" rl now u]
  ultimately show ?thesis by blast
qed

theorem wait_if_needed_delay_witness:
  "enabled init_limiter
   \<and> get_or_general init_limiter (lower ''Twitter'') = Inr (RateLimit 15 300 1000 5 2)
   \<and> (0::real) \<le> 1 / 2 \<and> (1::real) / 2 \<le> 1 \<and> 0 \<le> jitter_range (RateLimit 15 300 1000 5 2)
   \<and> (\<exists>j w. \<bar>j :: real\<bar> \<le> 1 / 10
          \<and> wait_if_needed init_limiter ''Twitter'' 100 (1 / 2) = Inr w \<and> 0 \<le> w)"
proof -
  have a: "enabled init_limiter" by (simp add: init_limiter_def)
  have b: "get_or_general init_limiter (lower ''Twitter'') = Inr (RateLimit 15 300 1000 5 2)"
    by (simp add: get_or_general_def init_limiter_def default_rate_limits_def lower_def
          lower_char_def)
  have c: "(0::real) \<le> 1 / 2" "(1::real) / 2 \<le> 1"
    "0 \<le> jitter_range (RateLimit 15 300 1000 5 2)"
    by (simp_all add: RateLimit_def)
  have j: "jitter_range (RateLimit 15 300 1000 5 2) = 1 / 10" by (simp add: RateLimit_def)
  from wait_if_needed_delay [OF a b c, of 100] a b c show ?thesis unfolding j by blast
qed

text \<open>
  C3.  \<^verbatim>\<open>acquire\<close> raises on a key that has no entry in \<open>rate_limits\<close> once that key's
  backoff multiplier is above 1: \<^verbatim>\<open>_is_in_backoff\<close> indexes \<open>rate_limits\<close> by the key itself,
  where \<^verbatim>\<open>acquire\<close>, \<^verbatim>\<open>wait_if_needed\<close> and \<^verbatim>\<open>_record_request\<close> fall back to the entry
  of \<^verbatim>\<open>"general"\<close>.  One rate-limit failure reported for the key brings the limiter there.
\<close>

theorem acquire_raises_for_unconfigured_key_in_backoff:
  "acquire (mark_request_failed init_limiter ''reddit'' ''rate_limit'' 100) ''reddit'' 101
     = Inl (KeyError ''reddit'')"
  by (simp add: acquire_def mark_request_failed_def init_limiter_def default_rate_limits_def
        lower_def lower_char_def get_or_general_def is_in_backoff_def RateLimit_def Let_def)

text \<open>
  The sliding windows.  Along a run of \<^verbatim>\<open>acquire\<close> calls and event-loop turns whose clock
  never goes back, started with the limiter enabled and no history for the key, each ceiling
  of at most 1000, the length of the deque, bounds the requests granted for the key in its
  trailing window.  (A ceiling below 0 grants nothing.)
\<close>

lemma count_since_mono:
  assumes "c \<le> c'"
  shows "count_since h c' \<le> count_since h c"
proof -
  have "length (filter (\<lambda>x. x > c') h) \<le> length (filter (\<lambda>x. x > c) h)"
    using assms by (induction h) auto
  then show ?thesis by (simp add: count_since_def)
qed

lemma count_since_append:
  "count_since (g @ [t]) c = count_since g c + (if t > c then 1 else 0)"
  by (simp add: count_since_def)

lemma filter_drop_sorted:
  assumes "sorted g"
  shows "length (filter (\<lambda>x. x > (c::real)) (drop d g))
           = min (length (filter (\<lambda>x. x > c) g)) (length g - d)"
  using assms
proof (induction g arbitrary: d)
  case Nil
  show ?case by simp
next
  case (Cons x xs)
  show ?case
  proof (cases d)
    case 0
    have "length (filter (\<lambda>x. x > c) (x # xs)) \<le> length (x # xs)" by (rule length_filter_le)
    then show ?thesis using 0 by (simp add: min_def)
  next
    case (Suc d')
    from Cons.prems have s: "sorted xs" and le: "\<forall>y \<in> set xs. x \<le> y" by simp_all
    note IH = Cons.IH[OF s, of d']
    show ?thesis
    proof (cases "x > c")
      case True
      then have "\<forall>y \<in> set xs. y > c" using le by auto
      then have "filter (\<lambda>x. x > c) xs = xs" by (intro filter_True) simp
      then have f: "length (filter (\<lambda>x. x > c) xs) = length xs" by simp
      have "length (filter (\<lambda>x. x > c) (drop d' xs)) = length xs - d'"
        using IH unfolding f by simp
      moreover have "min (Suc (length xs)) (length xs - d') = length xs - d'" by simp
      ultimately show ?thesis using True Suc f by simp
    next
      case False
      then show ?thesis using Suc IH by simp
    qed
  qed
qed

lemma count_since_deque_of:
  assumes "sorted g" and "count_since (deque_of g) c < l" and "l \<le> 1000"
  shows "count_since g c < l"
proof -
  let ?m = "length (filter (\<lambda>x. x > c) g)"
  have "?m \<le> length g" by (rule length_filter_le)
  moreover have "int (min ?m (length g - (length g - 1000))) < l"
    using assms(2) filter_drop_sorted[OF assms(1), of c "length g - 1000"]
    by (simp add: count_since_def deque_of_def deque_maxlen_def)
  ultimately show ?thesis
    using assms(3) unfolding count_since_def by (simp add: min_def split: if_splits)
qed

lemma deque_append_deque_of: "deque_append (deque_of g) t = deque_of (g @ [t])"
proof (cases "length g < 1000")
  case True
  then show ?thesis by (simp add: deque_append_def deque_of_def deque_maxlen_def Let_def)
next
  case False
  then have l: "1000 \<le> length g" by simp
  have "deque_append (deque_of g) t = drop 1 (drop (length g - 1000) g @ [t])"
    using l by (simp add: deque_append_def deque_of_def deque_maxlen_def Let_def)
  also have "\<dots> = drop (Suc (length g - 1000)) g @ [t]"
    using l by simp
  also have "\<dots> = deque_of (g @ [t])"
  proof -
    have "Suc (length g - 1000) = length g - 999" using l by simp
    then show ?thesis using l by (simp add: deque_of_def deque_maxlen_def)
  qed
  finally show ?thesis .
qed


lemma fold_reset_keeps:
  "enabled (fold (\<lambda>(p, t). reset_burst_count p) xs s) = enabled s
   \<and> rate_limits (fold (\<lambda>(p, t). reset_burst_count p) xs s) = rate_limits s
   \<and> request_history (fold (\<lambda>(p, t). reset_burst_count p) xs s) = request_history s"
proof (induction xs arbitrary: s)
  case Nil
  show ?case by simp
next
  case (Cons x xs)
  obtain p t where x: "x = (p, t)" by (cases x)
  show ?case using Cons[of "reset_burst_count p s"] by (simp add: x reset_burst_count_def)
qed

lemma run_due_tasks_keeps:
  "enabled (run_due_tasks now s) = enabled s"
  "rate_limits (run_due_tasks now s) = rate_limits s"
  "request_history (run_due_tasks now s) = request_history s"
  by (simp_all add: run_due_tasks_def Let_def fold_reset_keeps)

lemma get_or_general_cong:
  "rate_limits s' = rate_limits s \<Longrightarrow> get_or_general s' k = get_or_general s k"
  by (auto simp: get_or_general_def split: option.splits)

lemma window_inv_later:
  assumes "window_inv k rl s g now" and "now \<le> t"
    and "enabled s'" and "get_or_general s' k = Inr rl"
    and "request_history s' k = request_history s k"
  shows "window_inv k rl s' g t"
proof -
  have m: "count_since g (t - w) \<le> count_since g (now - w)" for w
    using assms(2) by (intro count_since_mono) simp
  from assms(1) have so: "sorted g" and ub: "\<forall>x \<in> set g. x \<le> now"
    and a: "requests_per_minute rl \<le> 1000 \<Longrightarrow>
          count_since g (now - 60) \<le> max 0 (requests_per_minute rl)"
    and b: "requests_per_hour rl \<le> 1000 \<Longrightarrow>
          count_since g (now - 3600) \<le> max 0 (requests_per_hour rl)"
    and c: "requests_per_day rl \<le> 1000 \<Longrightarrow>
          count_since g (now - 86400) \<le> max 0 (requests_per_day rl)"
    and h: "request_history s k = deque_of g"
    by (simp_all add: window_inv_def)
  have ub': "\<forall>x \<in> set g. x \<le> t" using ub assms(2) by auto
  have a': "requests_per_minute rl \<le> 1000 \<longrightarrow>
          count_since g (t - 60) \<le> max 0 (requests_per_minute rl)"
    using a m[of 60] by linarith
  have b': "requests_per_hour rl \<le> 1000 \<longrightarrow>
          count_since g (t - 3600) \<le> max 0 (requests_per_hour rl)"
    using b m[of 3600] by linarith
  have c': "requests_per_day rl \<le> 1000 \<longrightarrow>
          count_since g (t - 86400) \<le> max 0 (requests_per_day rl)"
    using c m[of 86400] by linarith
  show ?thesis
    unfolding window_inv_def using assms(3,4,5) h so ub' a' b' c' by simp
qed

lemma window_inv_tick:
  assumes "window_inv k rl s g now" and "now \<le> t"
  shows "window_inv k rl (run_due_tasks t s) g t"
proof (rule window_inv_later[OF assms])
  show "enabled (run_due_tasks t s)"
    using assms(1) by (simp add: window_inv_def run_due_tasks_keeps)
  show "get_or_general (run_due_tasks t s) k = Inr rl"
    using assms(1) get_or_general_cong[OF run_due_tasks_keeps(2), of t s k]
    by (simp add: window_inv_def)
  show "request_history (run_due_tasks t s) k = request_history s k"
    by (simp add: run_due_tasks_keeps)
qed

lemma record_request_keeps:
  assumes "record_request s p t = Inr s1"
  shows "enabled s1 = enabled s" and "rate_limits s1 = rate_limits s"
    and "request_history s1 = (request_history s)(p := deque_append (request_history s p) t)"
  using assms
  by (auto simp: record_request_def Let_def get_or_general_def split: option.splits)

lemma acquire_cases:
  assumes "acquire s p t = Inr (b, s1)" and "enabled s"
  shows "(\<not> b \<and> s1 = s)
       \<or> (b \<and> record_request s (lower p) t = Inr s1
            \<and> (\<exists>rl. get_or_general s (lower p) = Inr rl \<and> check_rate_limits s (lower p) rl t))"
  using assms unfolding acquire_def Let_def
  by (auto split: sum.splits bool.splits if_splits)

lemma window_inv_grant:
  assumes inv: "window_inv k rl s g now" and le: "now \<le> t"
    and chk: "check_rate_limits s k rl t" and rec: "record_request s k t = Inr s1"
  shows "window_inv k rl s1 (g @ [t]) t"
proof -
  from inv have en: "enabled s" and cfg: "get_or_general s k = Inr rl"
    and h: "request_history s k = deque_of g" and so: "sorted g"
    and ub: "\<forall>x \<in> set g. x \<le> now"
    by (simp_all add: window_inv_def)
  note r = record_request_keeps[OF rec]
  have c: "count_since (deque_of g) (t - 60) < requests_per_minute rl"
    "count_since (deque_of g) (t - 3600) < requests_per_hour rl"
    "count_since (deque_of g) (t - 86400) < requests_per_day rl"
    using chk unfolding check_rate_limits_def Let_def h by (auto split: if_splits)
  have grow: "count_since (g @ [t]) (t - w) \<le> max 0 l"
    if "count_since (deque_of g) (t - w) < l" "l \<le> 1000" "0 < w" for w l
  proof -
    have "count_since g (t - w) < l" by (rule count_since_deque_of[OF so that(1,2)])
    then show ?thesis using that(3) by (simp add: count_since_append)
  qed
  have "sorted (g @ [t])" using so ub le by (auto simp: sorted_append)
  moreover have "\<forall>x \<in> set (g @ [t]). x \<le> t" using ub le by auto
  moreover have "request_history s1 k = deque_of (g @ [t])"
    by (simp add: r(3) h deque_append_deque_of)
  moreover have "get_or_general s1 k = Inr rl"
    using cfg get_or_general_cong[OF r(2), of k] by simp
  moreover have "enabled s1" using en r(1) by simp
  moreover have "requests_per_minute rl \<le> 1000 \<longrightarrow>
      count_since (g @ [t]) (t - 60) \<le> max 0 (requests_per_minute rl)"
    using grow[OF c(1)] by simp
  moreover have "requests_per_hour rl \<le> 1000 \<longrightarrow>
      count_since (g @ [t]) (t - 3600) \<le> max 0 (requests_per_hour rl)"
    using grow[OF c(2)] by simp
  moreover have "requests_per_day rl \<le> 1000 \<longrightarrow>
      count_since (g @ [t]) (t - 86400) \<le> max 0 (requests_per_day rl)"
    using grow[OF c(3)] by simp
  ultimately show ?thesis
    unfolding window_inv_def by blast
qed

lemma window_inv_acquire:
  assumes inv: "window_inv k rl s g now" and le: "now \<le> t"
    and acq: "acquire s p t = Inr (b, s1)"
  shows "window_inv k rl s1 (g @ (if b \<and> lower p = k then [t] else [])) t"
proof -
  from inv have en: "enabled s" and cfg: "get_or_general s k = Inr rl"
    by (simp_all add: window_inv_def)
  from acquire_cases[OF acq en] consider
    (refused) "\<not> b" "s1 = s"
    | (granted) rl' where "b" "record_request s (lower p) t = Inr s1"
        "get_or_general s (lower p) = Inr rl'" "check_rate_limits s (lower p) rl' t"
    by blast
  then show ?thesis
  proof cases
    case refused
    then show ?thesis using window_inv_later[OF inv le en cfg] by simp
  next
    case granted
    note r = record_request_keeps[OF granted(2)]
    show ?thesis
    proof (cases "lower p = k")
      case True
      then have "rl' = rl" using granted(3) cfg by simp
      then show ?thesis
        using window_inv_grant[OF inv le] granted True by simp
    next
      case False
      have "window_inv k rl s1 g t"
      proof (rule window_inv_later[OF inv le])
        show "enabled s1" using en r(1) by simp
        show "get_or_general s1 k = Inr rl"
          using cfg get_or_general_cong[OF r(2), of k] by simp
        show "request_history s1 k = request_history s k"
          using False by (simp add: r(3))
      qed
      then show ?thesis using False by simp
    qed
  qed
qed

lemma window_inv_run:
  assumes "window_inv k rl s g now" and "sorted (map event_time es)"
    and "\<forall>e \<in> set es. now \<le> event_time e" and "run s es = Inr (bs, s')"
  shows "window_inv k rl s' (g @ granted k es bs) (last (now # map event_time es))"
  using assms
proof (induction es arbitrary: s g now bs)
  case Nil
  then show ?case by simp
next
  case (Cons e es)
  from Cons.prems(2,3) have so: "sorted (map event_time es)"
    and le: "now \<le> event_time e" and later: "\<forall>x \<in> set es. event_time e \<le> event_time x"
    by simp_all
  show ?case
  proof (cases e)
    case (Tick t)
    have i: "window_inv k rl (run_due_tasks t s) g t"
      using window_inv_tick[OF Cons.prems(1)] le Tick by simp
    have r: "run (run_due_tasks t s) es = Inr (bs, s')" using Cons.prems(4) Tick by simp
    have lt: "\<forall>x \<in> set es. t \<le> event_time x" using later Tick by simp
    have gr: "granted k (e # es) bs = granted k es bs" using Tick by simp
    have la: "last (now # map event_time (e # es)) = last (t # map event_time es)"
      using Tick by simp
    from Cons.IH[OF i so lt r] show ?thesis unfolding gr la .
  next
    case (Acquire p t)
    from Cons.prems(4) Acquire obtain b s1 bs1 where
      a: "acquire s p t = Inr (b, s1)" and r: "run s1 es = Inr (bs1, s')" and bs: "bs = b # bs1"
      by (auto split: sum.splits prod.splits)
    have i: "window_inv k rl s1 (g @ (if b \<and> lower p = k then [t] else [])) t"
      using window_inv_acquire[OF Cons.prems(1) _ a] le Acquire by simp
    have lt: "\<forall>x \<in> set es. t \<le> event_time x" using later Acquire by simp
    have gr: "g @ granted k (e # es) bs
        = (g @ (if b \<and> lower p = k then [t] else [])) @ granted k es bs1"
      using Acquire bs by simp
    have la: "last (now # map event_time (e # es)) = last (t # map event_time es)"
      using Acquire by simp
    from Cons.IH[OF i so lt r] show ?thesis unfolding gr la .
  qed
qed

lemma windows_hold_up_to_deque_maxlen:
  assumes "enabled s" and "get_or_general s k = Inr rl" and "request_history s k = []"
    and "sorted (map event_time es)" and "run s es = Inr (bs, s')"
    and "\<forall>e \<in> set es. event_time e \<le> t"
  shows "(requests_per_minute rl \<le> 1000 \<longrightarrow>
            count_since (granted k es bs) (t - 60) \<le> max 0 (requests_per_minute rl))
       \<and> (requests_per_hour rl \<le> 1000 \<longrightarrow>
            count_since (granted k es bs) (t - 3600) \<le> max 0 (requests_per_hour rl))
       \<and> (requests_per_day rl \<le> 1000 \<longrightarrow>
            count_since (granted k es bs) (t - 86400) \<le> max 0 (requests_per_day rl))"
proof (cases es)
  case Nil
  then show ?thesis by (simp add: count_since_def)
next
  case (Cons e es')
  let ?t0 = "event_time e"
  have i0: "window_inv k rl s [] ?t0"
    using assms(1-3) by (simp add: window_inv_def deque_of_def count_since_def)
  have ge: "\<forall>x \<in> set es. ?t0 \<le> event_time x" using assms(4) Cons by auto
  let ?tl = "last (?t0 # map event_time es)"
  from window_inv_run[OF i0 assms(4) ge assms(5)]
  have i: "window_inv k rl s' (granted k es bs) ?tl" by simp
  have "?tl \<le> t" using assms(6) Cons by (auto simp: last_map)
  then have m: "count_since (granted k es bs) (t - w) \<le> count_since (granted k es bs) (?tl - w)" for w
    by (intro count_since_mono) simp
  from i have a: "requests_per_minute rl \<le> 1000 \<Longrightarrow>
          count_since (granted k es bs) (?tl - 60) \<le> max 0 (requests_per_minute rl)"
    and b: "requests_per_hour rl \<le> 1000 \<Longrightarrow>
          count_since (granted k es bs) (?tl - 3600) \<le> max 0 (requests_per_hour rl)"
    and c: "requests_per_day rl \<le> 1000 \<Longrightarrow>
          count_since (granted k es bs) (?tl - 86400) \<le> max 0 (requests_per_day rl)"
    by (simp_all add: window_inv_def)
  have "requests_per_minute rl \<le> 1000 \<longrightarrow>
            count_since (granted k es bs) (t - 60) \<le> max 0 (requests_per_minute rl)"
    using a m[of 60] by linarith
  moreover have "requests_per_hour rl \<le> 1000 \<longrightarrow>
            count_since (granted k es bs) (t - 3600) \<le> max 0 (requests_per_hour rl)"
    using b m[of 3600] by linarith
  moreover have "requests_per_day rl \<le> 1000 \<longrightarrow>
            count_since (granted k es bs) (t - 86400) \<le> max 0 (requests_per_day rl)"
    using c m[of 86400] by linarith
  ultimately show ?thesis by blast
qed

text \<open>The sliding windows against a caller that asks every 40 seconds.\<close>

lemma general_cfg:
  "rate_limits init_limiter ''general'' = Some (RateLimit 30 500 2000 10 1)"
  by (simp add: init_limiter_def default_rate_limits_def)

lemma count_since_le_card:
  assumes "distinct h" and "{x \<in> set h. x > c} \<subseteq> A" and "finite A"
  shows "count_since h c \<le> int (card A)"
proof -
  have "distinct (filter (\<lambda>x. x > c) h)" using assms(1) by simp
  then have "length (filter (\<lambda>x. x > c) h) = card (set (filter (\<lambda>x. x > c) h))"
    by (simp only: distinct_card)
  also have "\<dots> \<le> card A" using assms(2,3) by (intro card_mono) auto
  finally show ?thesis by (simp add: count_since_def)
qed

lemma count_since_le_length: "count_since h c \<le> int (length h)"
  by (simp add: count_since_def)

lemma spaced_minute:
  assumes "distinct h" and "set h \<subseteq> (\<lambda>i. 40 * real i) ` {i. i < n}"
  shows "count_since h (40 * real n - 60) \<le> 1"
proof -
  have "{x \<in> set h. x > 40 * real n - 60} \<subseteq> {40 * real (n - 1)}"
  proof
    fix x assume "x \<in> {x \<in> set h. x > 40 * real n - 60}"
    then obtain i where i: "i < n" "x = 40 * real i" "40 * real i > 40 * real n - 60"
      using assms(2) by auto
    then have "real i > real n - 3 / 2" by simp
    then have "real (i + 2) > real n" by simp
    then have "i + 2 > n" by (simp only: of_nat_less_iff)
    with i(1) have "i = n - 1" by simp
    then show "x \<in> {40 * real (n - 1)}" using i(2) by simp
  qed
  from count_since_le_card[OF assms(1) this] show ?thesis by simp
qed

lemma spaced_hour:
  assumes "distinct h" and "set h \<subseteq> (\<lambda>i. 40 * real i) ` {i. i < n}"
  shows "count_since h (40 * real n - 3600) \<le> 90"
proof -
  have "{x \<in> set h. x > 40 * real n - 3600} \<subseteq> (\<lambda>i. 40 * real i) ` {n - 90 ..< n}"
  proof
    fix x assume "x \<in> {x \<in> set h. x > 40 * real n - 3600}"
    then obtain i where i: "i < n" "x = 40 * real i" "40 * real i > 40 * real n - 3600"
      using assms(2) by auto
    then have "real i > real n - 90" by simp
    then have "real (i + 90) > real n" by simp
    then have "i + 90 > n" by (simp only: of_nat_less_iff)
    with i(1) have "i \<in> {n - 90 ..< n}" by auto
    then show "x \<in> (\<lambda>i. 40 * real i) ` {n - 90 ..< n}" using i(2) by blast
  qed
  from count_since_le_card[OF assms(1) this]
  have "count_since h (40 * real n - 3600) \<le> int (card ((\<lambda>i. 40 * real i) ` {n - 90 ..< n}))"
    by simp
  also have "\<dots> \<le> int (card {n - 90 ..< n})"
    using card_image_le[of "{n - 90 ..< n}" "\<lambda>i. 40 * real i"] by (simp del: card_atLeastLessThan)
  also have "\<dots> \<le> 90" by simp
  finally show ?thesis .
qed


lemma deque_append_props:
  "length (deque_append h x) = min (length h + 1) 1000"
  "set (deque_append h x) \<subseteq> insert x (set h)"
  "distinct h \<Longrightarrow> x \<notin> set h \<Longrightarrow> distinct (deque_append h x)"
proof -
  show "length (deque_append h x) = min (length h + 1) 1000"
    by (simp add: deque_append_def deque_maxlen_def Let_def)
  show "set (deque_append h x) \<subseteq> insert x (set h)"
  proof
    fix y assume "y \<in> set (deque_append h x)"
    then have "y \<in> set (h @ [x])"
      unfolding deque_append_def Let_def by (rule in_set_dropD)
    then show "y \<in> insert x (set h)" by auto
  qed
  show "distinct h \<Longrightarrow> x \<notin> set h \<Longrightarrow> distinct (deque_append h x)"
    unfolding deque_append_def Let_def by (intro distinct_drop) simp
qed

lemma spaced_round_step:
  assumes "spaced_inv n s"
  shows "\<exists>s1. acquire s ''general'' (40 * real n) = Inr (True, s1)
            \<and> spaced_inv (Suc n) (run_due_tasks (40 * real n + 1) s1)"
proof -
  let ?h = "request_history s ''general''"
  let ?now = "40 * real n"
  from assms have rl: "rate_limits s = rate_limits init_limiter" and en: "enabled s"
    and bm: "backoff_multiplier s ''general'' = 1" and bc: "burst_count s ''general'' = 0"
    and rt: "reset_tasks s = []" and len: "length ?h = min n 1000" and di: "distinct ?h"
    and sub: "set ?h \<subseteq> (\<lambda>i. 40 * real i) ` {i. i < n}"
    by (simp_all add: spaced_inv_def)
  have lo: "lower ''general'' = ''general''" by (simp add: lower_def lower_char_def)
  have g: "get_or_general s ''general'' = Inr (RateLimit 30 500 2000 10 1)"
    by (simp add: get_or_general_def rl general_cfg)
  have nb: "is_in_backoff s ''general'' ?now = Inr False"
    by (simp add: is_in_backoff_def bm)
  have m: "count_since ?h (?now - 60) \<le> 1" by (rule spaced_minute[OF di sub])
  have h: "count_since ?h (?now - 3600) \<le> 90" by (rule spaced_hour[OF di sub])
  have d: "count_since ?h (?now - 86400) \<le> 1000"
    using count_since_le_length[of ?h "?now - 86400"] len by simp
  have chk: "check_rate_limits s ''general'' (RateLimit 30 500 2000 10 1) ?now"
    using m h d bc by (simp add: check_rate_limits_def Let_def RateLimit_def)
  define s1 where "s1 = s\<lparr>request_history :=
                   (request_history s)(''general'' := deque_append ?h ?now),
                 last_request_time := (last_request_time s)(''general'' := ?now),
                 burst_count := (burst_count s)(''general'' := burst_count s ''general'' + 1),
                 reset_tasks := reset_tasks s @ [(''general'', ?now + 1)]\<rparr>"
  have rec: "record_request s ''general'' ?now = Inr s1"
    by (simp add: record_request_def Let_def get_or_general_def rl general_cfg s1_def RateLimit_def)
  have acq: "acquire s ''general'' ?now = Inr (True, s1)"
    by (simp add: acquire_def en lo g nb chk rec Let_def)
  have tick: "run_due_tasks (?now + 1) s1
      = s1\<lparr>reset_tasks := [], burst_count := (burst_count s1)(''general'' := 0)\<rparr>"
    by (simp add: run_due_tasks_def Let_def s1_def rt bc reset_burst_count_def)
  have fresh: "?now \<notin> set ?h"
  proof
    assume "?now \<in> set ?h"
    then obtain i where "i < n" "40 * real n = 40 * real i" using sub by auto
    then show False by simp
  qed
  have sub': "set (deque_append ?h ?now) \<subseteq> (\<lambda>i. 40 * real i) ` {i. i < Suc n}"
  proof
    fix x assume "x \<in> set (deque_append ?h ?now)"
    then have "x = ?now \<or> x \<in> set ?h" using deque_append_props(2)[of ?h ?now] by auto
    then show "x \<in> (\<lambda>i. 40 * real i) ` {i. i < Suc n}"
    proof
      assume "x = ?now" then show ?thesis by auto
    next
      assume "x \<in> set ?h"
      then obtain i where "i < n" "x = 40 * real i" using sub by auto
      then show ?thesis by (auto intro: less_SucI)
    qed
  qed
  have "spaced_inv (Suc n) (run_due_tasks (?now + 1) s1)"
    unfolding tick spaced_inv_def
    using rl en bm sub' deque_append_props(3)[OF di fresh] deque_append_props(1)[of ?h ?now] len
    by (simp add: s1_def min_def)
  with acq show ?thesis by blast
qed

lemma spaced_acquires_Suc:
  "spaced_acquires n (Suc k) = spaced_round n @ spaced_acquires (Suc n) k"
proof -
  have "[n..<n + Suc k] = n # [Suc n..<Suc n + k]"
    using upt_conv_Cons[of n "n + Suc k"] by simp
  then show ?thesis unfolding spaced_acquires_def by (simp del: upt_Suc)
qed

lemma spaced_run:
  assumes "spaced_inv n s"
  shows "\<exists>s'. run s (spaced_acquires n k) = Inr (replicate k True, s') \<and> spaced_inv (n + k) s'"
  using assms
proof (induction k arbitrary: n s)
  case 0
  then show ?case by (simp add: spaced_acquires_def)
next
  case (Suc k)
  from spaced_round_step[OF Suc.prems] obtain s1 where
    a: "acquire s ''general'' (40 * real n) = Inr (True, s1)"
    and i: "spaced_inv (Suc n) (run_due_tasks (40 * real n + 1) s1)" by blast
  from Suc.IH[OF i] obtain s' where
    r: "run (run_due_tasks (40 * real n + 1) s1) (spaced_acquires (Suc n) k)
          = Inr (replicate k True, s')"
    and i': "spaced_inv (Suc n + k) s'" by blast
  have "run s (spaced_acquires n (Suc k)) = Inr (replicate (Suc k) True, s')"
    unfolding spaced_acquires_Suc spaced_round_def by (simp add: a r)
  with i' show ?case by auto
qed

lemma granted_spaced:
  "granted ''general'' (spaced_acquires n k) (replicate k True)
     = map (\<lambda>i. 40 * real i) [n..<n + k]"
proof (induction k arbitrary: n)
  case 0
  show ?case by (simp add: spaced_acquires_def)
next
  case (Suc k)
  show ?case
    unfolding spaced_acquires_Suc spaced_round_def
    using Suc[of "Suc n"] upt_conv_Cons[of n "n + Suc k"]
    by (simp add: lower_def lower_char_def del: upt_Suc)
qed

lemma spaced_inv_init: "spaced_inv 0 init_limiter"
  by (simp add: spaced_inv_def init_limiter_def)

text \<open>
  C1.  The daily ceiling of \<^verbatim>\<open>"general"\<close> is not enforced.  A caller that asks for a slot
  on \<^verbatim>\<open>"general"\<close> every 40 seconds, 2001 times from second 0 to second 80000, is granted
  every time: all 2001 requests were recorded inside the 24 hours that end at second 80000,
  while \<open>requests_per_day\<close> of \<^verbatim>\<open>"general"\<close> is 2000.  The history is a deque of at most
  1000 entries, so the count of the last day that \<^verbatim>\<open>_check_rate_limits\<close> compares with
  2000 never exceeds 1000.
\<close>

theorem daily_ceiling_of_general_not_enforced:
  "\<exists>s'. run init_limiter (spaced_acquires 0 2001) = Inr (replicate 2001 True, s')
      \<and> count_since (granted ''general'' (spaced_acquires 0 2001) (replicate 2001 True))
            (80000 - 86400) = 2001
      \<and> get_or_general s' ''general'' = Inr (RateLimit 30 500 2000 10 1)
      \<and> requests_per_day (RateLimit 30 500 2000 10 1) = 2000
      \<and> length (request_history s' ''general'') = 1000"
proof -
  from spaced_run[OF spaced_inv_init, of 2001] obtain s' where
    r: "run init_limiter (spaced_acquires 0 2001) = Inr (replicate 2001 True, s')"
    and i: "spaced_inv 2001 s'" by auto
  have c: "count_since (granted ''general'' (spaced_acquires 0 2001) (replicate 2001 True))
             (80000 - 86400) = 2001"
  proof -
    have "filter (\<lambda>t. t > 80000 - 86400) (map (\<lambda>i. 40 * real i) [0..<2001])
        = map (\<lambda>i. 40 * real i) [0..<2001]"
      by (rule filter_True) auto
    then show ?thesis
      unfolding granted_spaced count_since_def by (simp del: upt_Suc)
  qed
  have g: "get_or_general s' ''general'' = Inr (RateLimit 30 500 2000 10 1)"
    using i by (simp add: get_or_general_def spaced_inv_def general_cfg)
  have l: "length (request_history s' ''general'') = 1000"
    using i by (simp add: spaced_inv_def)
  show ?thesis using r c g l by (auto simp: RateLimit_def)
qed

subsection \<open>Proxy manager\<close>

text \<open>What \<^verbatim>\<open>mark_proxy_failed\<close> changes, and the shuffle.\<close>

lemma find_url:
  "find (\<lambda>r. url (h r) = u) rs = Some r \<Longrightarrow> r \<in> set rs \<and> url (h r) = u"
  by (induction rs) (auto split: if_splits)


lemma mark_proxy_failed_unknown:
  assumes "find (\<lambda>r. url (heap s r) = u) (proxies s) = None"
  shows "mark_proxy_failed s u = s"
  using assms by (simp add: mark_proxy_failed_def)

lemma mark_proxy_failed_disabled: "\<not> use_proxies s \<Longrightarrow> mark_proxy_failed s u = s"
  by (simp add: mark_proxy_failed_def)

lemma mark_proxy_failed_known:
  assumes "use_proxies s" and "find (\<lambda>r. url (heap s r) = u) (proxies s) = Some r"
  shows "proxies (mark_proxy_failed s u) = proxies s"
    and "use_proxies (mark_proxy_failed s u)"
    and "max_proxy_retries (mark_proxy_failed s u) = max_proxy_retries s"
    and "next_ref (mark_proxy_failed s u) = next_ref s"
    and "last_rotation (mark_proxy_failed s u) = last_rotation s"
    and "heap (mark_proxy_failed s u)
           = (heap s)(r := (heap s r)\<lparr>fail_count := fail_count (heap s r) + 1, is_working := False\<rparr>)"
    and "working_proxies (mark_proxy_failed s u)
           = (if fail_count (heap s r) + 1 \<ge> max_proxy_retries s
              then filter (\<lambda>w. url (heap s w) \<noteq> u) (working_proxies s)
              else working_proxies s)"
proof -
  have "url (heap s r) = u" using find_url[OF assms(2)] by simp
  then have eq: "(\<lambda>w. url (if w = r then (heap s r)\<lparr>fail_count := fail_count (heap s r) + 1, is_working := False\<rparr> else heap s w) \<noteq> u)
      = (\<lambda>w. url (heap s w) \<noteq> u)"
    by (auto simp: fun_eq_iff)
  show "proxies (mark_proxy_failed s u) = proxies s"
    "use_proxies (mark_proxy_failed s u)"
    "max_proxy_retries (mark_proxy_failed s u) = max_proxy_retries s"
    "next_ref (mark_proxy_failed s u) = next_ref s"
    "last_rotation (mark_proxy_failed s u) = last_rotation s"
    "heap (mark_proxy_failed s u)
           = (heap s)(r := (heap s r)\<lparr>fail_count := fail_count (heap s r) + 1, is_working := False\<rparr>)"
    using assms by (simp_all add: mark_proxy_failed_def Let_def)
  show "working_proxies (mark_proxy_failed s u)
           = (if fail_count (heap s r) + 1 \<ge> max_proxy_retries s
              then filter (\<lambda>w. url (heap s w) \<noteq> u) (working_proxies s)
              else working_proxies s)"
    using assms eq by (simp add: mark_proxy_failed_def Let_def)
qed

lemma mark_proxy_failed_url:
  "url (heap (mark_proxy_failed s u) q) = url (heap s q)"
proof (cases "use_proxies s")
  case False then show ?thesis by (simp add: mark_proxy_failed_disabled)
next
  case True
  show ?thesis
  proof (cases "find (\<lambda>r. url (heap s r) = u) (proxies s)")
    case None then show ?thesis by (simp add: mark_proxy_failed_unknown)
  next
    case (Some r)
    show ?thesis unfolding mark_proxy_failed_known(6)[OF True Some] by simp
  qed
qed


lemma working_urls_mark_proxy_failed:
  "set (working_urls (mark_proxy_failed s u)) \<subseteq> set (working_urls s)"
proof (cases "use_proxies s")
  case False then show ?thesis by (simp add: mark_proxy_failed_disabled)
next
  case True
  show ?thesis
  proof (cases "find (\<lambda>r. url (heap s r) = u) (proxies s)")
    case None then show ?thesis by (simp add: mark_proxy_failed_unknown)
  next
    case (Some r)
    have "set (working_proxies (mark_proxy_failed s u)) \<subseteq> set (working_proxies s)"
      unfolding mark_proxy_failed_known(7)[OF True Some] by auto
    then show ?thesis
      unfolding working_urls_def by (auto simp: mark_proxy_failed_url)
  qed
qed





lemma shuffle_from_set:
  "i < length xs \<Longrightarrow> set (shuffle_from draw i xs) = set xs"
proof (induction i arbitrary: xs)
  case 0
  show ?case by simp
next
  case (Suc i)
  let ?j = "draw (Suc i) mod (Suc i + 1)"
  have "?j < Suc i + 1" by (rule mod_less_divisor) simp
  then have j: "?j < length xs" using Suc.prems by linarith
  let ?ys = "xs[Suc i := xs ! ?j, ?j := xs ! Suc i]"
  have "set ?ys = set xs" using set_swap[OF Suc.prems j] .
  moreover have "i < length ?ys" using Suc.prems by simp
  ultimately show ?case using Suc.IH[of ?ys] by (simp add: Let_def)
qed

lemma shuffle_set: "set (shuffle draw xs) = set xs"
proof (cases xs)
  case Nil
  then show ?thesis by (simp add: shuffle_def)
next
  case (Cons a as)
  then show ?thesis unfolding shuffle_def by (intro shuffle_from_set) simp
qed

lemma shuffle_length: "length (shuffle draw xs) = length xs"
proof -
  have "length (shuffle_from draw i xs) = length xs" for i
    by (induction i arbitrary: xs) (simp_all add: Let_def)
  then show ?thesis by (simp add: shuffle_def)
qed


text \<open>Every reachable state of a proxy manager is well formed.\<close>

lemma pm_wf_heap_update:
  assumes "pm_wf s" and "url p = url (heap s r)" and "0 \<le> fail_count p"
  shows "pm_wf (s\<lparr>heap := (heap s)(r := p)\<rparr>)"
proof -
  have u: "url (((heap s)(r := p)) q) = url (heap s q)" for q using assms(2) by simp
  show ?thesis using assms(1,3) unfolding pm_wf_def working_urls_def
    by (simp add: u del: fun_upd_apply) (auto)
qed

lemma pm_wf_working:
  assumes "pm_wf s" and "set ws \<subseteq> set (working_proxies s) \<union> set (proxies s)"
  shows "pm_wf (s\<lparr>working_proxies := ws\<rparr>)"
proof -
  have "url (heap s w) \<in> (\<lambda>r. url (heap s r)) ` set (proxies s)" if "w \<in> set ws" for w
  proof -
    from that assms(2) consider "w \<in> set (working_proxies s)" | "w \<in> set (proxies s)" by blast
    then show ?thesis
    proof cases
      case 1
      then have "url (heap s w) \<in> set (working_urls s)" by (simp add: working_urls_def)
      then show ?thesis using assms(1) unfolding pm_wf_def by auto
    next
      case 2
      then show ?thesis by blast
    qed
  qed
  moreover have "\<forall>r \<in> set (proxies s) \<union> set ws. r < next_ref s"
    using assms unfolding pm_wf_def by blast
  moreover have "\<forall>r \<in> set (proxies s). 0 \<le> fail_count (heap s r)"
    using assms unfolding pm_wf_def by blast
  ultimately show ?thesis unfolding pm_wf_def working_urls_def by auto
qed

lemma pm_wf_cong:
  assumes "next_ref t = next_ref s" and "proxies t = proxies s"
    and "working_proxies t = working_proxies s" and "heap t = heap s"
  shows "pm_wf t = pm_wf s"
  using assms by (simp add: pm_wf_def working_urls_def)

lemma pm_wf_other_fields:
  "pm_wf (s\<lparr>last_rotation := t\<rparr>) = pm_wf s"
  "pm_wf (s\<lparr>current_proxy := c\<rparr>) = pm_wf s"
  "pm_wf (s\<lparr>failed_proxies := f\<rparr>) = pm_wf s"
  by (simp_all add: pm_wf_def working_urls_def)

lemma pm_wf_mark_proxy_failed:
  assumes "pm_wf s"
  shows "pm_wf (mark_proxy_failed s u)"
proof (cases "use_proxies s")
  case False then show ?thesis using assms by (simp add: mark_proxy_failed_disabled)
next
  case True
  show ?thesis
  proof (cases "find (\<lambda>r. url (heap s r) = u) (proxies s)")
    case None then show ?thesis using assms by (simp add: mark_proxy_failed_unknown)
  next
    case (Some r)
    let ?p = "(heap s r)\<lparr>fail_count := fail_count (heap s r) + 1, is_working := False\<rparr>"
    let ?s1 = "s\<lparr>heap := (heap s)(r := ?p)\<rparr>"
    have "r \<in> set (proxies s)" using find_url[OF Some] by simp
    then have "0 \<le> fail_count (heap s r)" using assms unfolding pm_wf_def by blast
    then have 1: "pm_wf ?s1" by (intro pm_wf_heap_update[OF assms]) simp_all
    have 2: "pm_wf (?s1\<lparr>working_proxies := filter (\<lambda>w. url (heap ?s1 w) \<noteq> u) (working_proxies ?s1)\<rparr>)"
      by (rule pm_wf_working[OF 1]) auto
    let ?s2 = "?s1\<lparr>working_proxies := filter (\<lambda>w. url (heap ?s1 w) \<noteq> u) (working_proxies ?s1)\<rparr>"
    have 3: "pm_wf (?s1\<lparr>failed_proxies := insert u (failed_proxies ?s1),
               working_proxies := filter (\<lambda>w. url (heap ?s1 w) \<noteq> u) (working_proxies ?s1)\<rparr>)"
      using 2 by (subst pm_wf_cong[where s="?s2"]) simp_all
    have "mark_proxy_failed s u =
        (if fail_count ?p \<ge> max_proxy_retries ?s1
         then ?s1\<lparr>failed_proxies := insert u (failed_proxies ?s1),
               working_proxies := filter (\<lambda>w. url (heap ?s1 w) \<noteq> u) (working_proxies ?s1)\<rparr>
         else ?s1)"
      using True Some unfolding mark_proxy_failed_def Let_def by simp
    then show ?thesis using 1 3 by presburger
  qed
qed

lemma pm_wf_mark_proxy_success:
  assumes "pm_wf s"
  shows "pm_wf (mark_proxy_success s u now)"
proof (cases "use_proxies s")
  case False then show ?thesis using assms by (simp add: mark_proxy_success_def)
next
  case True
  show ?thesis
  proof (cases "find (\<lambda>r. url (heap s r) = u) (proxies s)")
    case None then show ?thesis using assms by (simp add: mark_proxy_success_def)
  next
    case (Some r)
    let ?p = "(heap s r)\<lparr>success_count := success_count (heap s r) + 1,
                                   is_working := True, last_checked := Some now\<rparr>"
    let ?s1 = "s\<lparr>heap := (heap s)(r := ?p)\<rparr>"
    have r: "r \<in> set (proxies s)" using find_url[OF Some] by simp
    then have "0 \<le> fail_count (heap s r)" using assms unfolding pm_wf_def by blast
    then have 1: "pm_wf ?s1" by (intro pm_wf_heap_update[OF assms]) simp_all
    have 2: "pm_wf (?s1\<lparr>working_proxies := working_proxies ?s1 @ [r]\<rparr>)"
      by (rule pm_wf_working[OF 1]) (use r in auto)
    show ?thesis
      using True Some 1 2 unfolding mark_proxy_success_def Let_def
      by (simp del: fun_upd_apply)
  qed
qed

lemma pm_wf_validate_proxy:
  assumes "pm_wf s" and "r \<in> set (proxies s)"
  shows "pm_wf (validate_proxy responds now r s) \<and> proxies (validate_proxy responds now r s) = proxies s"
proof -
  have f: "0 \<le> fail_count (heap s r)" using assms unfolding pm_wf_def by blast
  let ?s1 = "s\<lparr>heap := (heap s)(r := (heap s r)\<lparr>is_working := True, last_checked := Some now\<rparr>)\<rparr>"
  have 1: "pm_wf ?s1" using f by (intro pm_wf_heap_update[OF assms(1)]) simp_all
  have 2: "pm_wf (?s1\<lparr>working_proxies := working_proxies ?s1 @ [r]\<rparr>)"
    by (rule pm_wf_working[OF 1]) (use assms(2) in auto)
  have 3: "pm_wf (s\<lparr>heap := (heap s)(r := (heap s r)\<lparr>is_working := False\<rparr>)\<rparr>)"
    using f by (intro pm_wf_heap_update[OF assms(1)]) simp_all
  show ?thesis using 2 3 unfolding validate_proxy_def by (simp del: fun_upd_apply)
qed

lemma pm_wf_validate_fold:
  assumes "pm_wf s" and "set rs \<subseteq> set (proxies s)"
  shows "pm_wf (fold (validate_proxy responds now) rs s)
       \<and> proxies (fold (validate_proxy responds now) rs s) = proxies s"
  using assms
proof (induction rs arbitrary: s)
  case Nil
  then show ?case by simp
next
  case (Cons r rs)
  from Cons.prems have r: "r \<in> set (proxies s)" by simp
  note v = pm_wf_validate_proxy[OF Cons.prems(1) r, of responds now]
  have "set rs \<subseteq> set (proxies (validate_proxy responds now r s))"
    using Cons.prems(2) v by simp
  from Cons.IH[OF conjunct1[OF v] this] v show ?case by simp
qed

lemma pm_wf_validate_proxies: "pm_wf s \<Longrightarrow> pm_wf (validate_proxies responds now s)"
  unfolding validate_proxies_def using pm_wf_validate_fold[of s "proxies s"] by simp

lemma pm_wf_alloc:
  assumes "pm_wf s" and "0 \<le> fail_count p"
  shows "pm_wf ((snd (alloc p s))\<lparr>proxies := proxies s @ [next_ref s]\<rparr>)"
    and "pm_wf ((snd (alloc p s))\<lparr>working_proxies := working_proxies s @ [next_ref s],
                                  proxies := proxies s @ [next_ref s]\<rparr>)"
proof -
  have lt: "\<forall>r \<in> set (proxies s) \<union> set (working_proxies s). r < next_ref s"
    and sub: "(\<lambda>w. url (heap s w)) ` set (working_proxies s) \<subseteq> (\<lambda>r. url (heap s r)) ` set (proxies s)"
    and fc: "\<forall>r \<in> set (proxies s). 0 \<le> fail_count (heap s r)"
    using assms(1) unfolding pm_wf_def working_urls_def by auto
  have old: "((heap s)(next_ref s := p)) r = heap s r"
    if "r \<in> set (proxies s) \<union> set (working_proxies s)" for r
    using lt that by auto
  have sub': "url (((heap s)(next_ref s := p)) w)
        \<in> (\<lambda>r. url (((heap s)(next_ref s := p)) r)) ` set (proxies s)"
    if "w \<in> set (working_proxies s)" for w
  proof -
    from sub that obtain r where r: "r \<in> set (proxies s)" "url (heap s w) = url (heap s r)"
      by auto
    have "url (((heap s)(next_ref s := p)) w) = url (((heap s)(next_ref s := p)) r)"
      using old[of w] old[of r] r that by simp
    then show ?thesis using r(1) by blast
  qed
  have fc': "0 \<le> fail_count (((heap s)(next_ref s := p)) r)" if "r \<in> set (proxies s)" for r
    using old[of r] fc that by simp
  have new: "((heap s)(next_ref s := p)) (next_ref s) = p" by simp
  have lt': "r < Suc (next_ref s)" if "r \<in> set (proxies s) \<union> set (working_proxies s)" for r
    using lt that by (simp add: less_Suc_eq)
  show "pm_wf ((snd (alloc p s))\<lparr>proxies := proxies s @ [next_ref s]\<rparr>)"
    unfolding pm_wf_def working_urls_def alloc_def
    using sub' fc' lt' assms(2) by (auto simp: new simp del: fun_upd_apply) 
  show "pm_wf ((snd (alloc p s))\<lparr>working_proxies := working_proxies s @ [next_ref s],
                                  proxies := proxies s @ [next_ref s]\<rparr>)"
    unfolding pm_wf_def working_urls_def alloc_def
    using sub' fc' lt' assms(2) by (auto simp: new simp del: fun_upd_apply)
qed

lemma pm_wf_load_cached_proxy:
  assumes "pm_wf s" and "0 \<le> fail_count item"
  shows "pm_wf (load_cached_proxy item s)"
proof -
  have f: "0 \<le> fail_count (item\<lparr>last_checked := None\<rparr>)" using assms(2) by simp
  note a = pm_wf_alloc[OF assms(1) f]
  show ?thesis
  proof (cases "is_working item")
    case True
    have "load_cached_proxy item s = (snd (alloc (item\<lparr>last_checked := None\<rparr>) s))
       \<lparr>working_proxies := working_proxies s @ [next_ref s], proxies := proxies s @ [next_ref s]\<rparr>"
      using True by (simp add: load_cached_proxy_def alloc_def Let_def)
    then show ?thesis using a(2) by simp
  next
    case False
    have "load_cached_proxy item s = (snd (alloc (item\<lparr>last_checked := None\<rparr>) s))
       \<lparr>proxies := proxies s @ [next_ref s]\<rparr>"
      using False by (simp add: load_cached_proxy_def alloc_def Let_def)
    then show ?thesis using a(1) by simp
  qed
qed

lemma pm_wf_load_cached_proxies:
  assumes "pm_wf s" and "\<forall>p \<in> set items. 0 \<le> fail_count p"
  shows "pm_wf (load_cached_proxies items s)"
  using assms unfolding load_cached_proxies_def
  by (induction items arbitrary: s) (simp_all add: pm_wf_load_cached_proxy)

lemma pm_wf_init:
  assumes "\<forall>p \<in> set cached. 0 \<le> fail_count p"
  shows "pm_wf (init_proxy_manager use timeout retries interval now cached)"
  unfolding init_proxy_manager_def
  by (rule pm_wf_load_cached_proxies[OF _ assms]) (simp add: pm_wf_def working_urls_def)

lemma pm_wf_extend_proxies:
  assumes "pm_wf s"
  shows "pm_wf (extend_proxies p s)"
proof -
  have "extend_proxies p s = (snd (alloc (new_proxy p) s))\<lparr>proxies := proxies s @ [next_ref s]\<rparr>"
    by (simp add: extend_proxies_def alloc_def Let_def)
  then show ?thesis using pm_wf_alloc(1)[OF assms, of "new_proxy p"] by (simp add: new_proxy_def)
qed

lemma unique_proxies_urls:
  "set (map (\<lambda>r. url (h r)) (unique_proxies h seen rs)) \<union> set seen
     = set (map (\<lambda>r. url (h r)) rs) \<union> set seen"
  by (induction h seen rs rule: unique_proxies.induct) auto

lemma unique_proxies_subset: "set (unique_proxies h seen rs) \<subseteq> set rs"
  by (induction h seen rs rule: unique_proxies.induct) auto

lemma pm_wf_unique:
  assumes "pm_wf s"
  shows "pm_wf (s\<lparr>proxies := unique_proxies (heap s) [] (proxies s)\<rparr>)"
proof -
  have "set (map (\<lambda>r. url (heap s r)) (unique_proxies (heap s) [] (proxies s)))
      = set (map (\<lambda>r. url (heap s r)) (proxies s))"
    using unique_proxies_urls[of "heap s" "[]" "proxies s"] by simp
  then show ?thesis
    using assms unique_proxies_subset[of "heap s" "[]" "proxies s"]
    unfolding pm_wf_def working_urls_def by auto
qed

lemma pm_wf_fetch_proxies:
  assumes "pm_wf s"
  shows "pm_wf (fetch_proxies found s)"
proof -
  have "pm_wf (fold extend_proxies found s)"
    using assms by (induction found arbitrary: s) (simp_all add: pm_wf_extend_proxies)
  then show ?thesis unfolding fetch_proxies_def Let_def by (rule pm_wf_unique)
qed

lemma pm_wf_initialize: "pm_wf s \<Longrightarrow> pm_wf (initialize found responds now s)"
  by (simp add: initialize_def pm_wf_validate_proxies pm_wf_fetch_proxies)

lemma pm_wf_rotate_proxies:
  assumes "pm_wf s"
  shows "pm_wf (rotate_proxies s now env)"
proof -
  have 1: "pm_wf (s\<lparr>last_rotation := now\<rparr>)" using assms by (simp add: pm_wf_other_fields)
  have 2: "pm_wf (s\<lparr>last_rotation := now\<rparr>\<lparr>working_proxies :=
             shuffle (shuffle_draw env) (working_proxies (s\<lparr>last_rotation := now\<rparr>))\<rparr>)"
    by (rule pm_wf_working[OF 1]) (simp add: shuffle_set)
  show ?thesis
    unfolding rotate_proxies_def Let_def
    using 2 pm_wf_validate_proxies[OF pm_wf_fetch_proxies[OF 1]] by simp
qed

lemma pm_wf_get_proxy:
  assumes "pm_wf s" and "get_proxy s now env pick = (res, s')"
  shows "pm_wf s'"
proof -
  define s1 where "s1 = (if should_rotate s now then rotate_proxies s now env else s)"
  have 1: "pm_wf s1" unfolding s1_def using assms(1) by (simp add: pm_wf_rotate_proxies)
  have "s' = s \<or> s' = s1 \<or> (\<exists>c. s' = s1\<lparr>current_proxy := c\<rparr>)"
    using assms(2) unfolding get_proxy_def s1_def[symmetric] Let_def
    by (auto split: if_splits)
  then show ?thesis using assms(1) 1 by (auto simp: pm_wf_other_fields)
qed

lemma pm_reachable_wf: "pm_reachable s \<Longrightarrow> pm_wf s"
proof (induction rule: pm_reachable.induct)
  case (p_init cached use timeout retries interval now)
  then show ?case by (rule pm_wf_init)
next
  case (p_initialize s found responds now)
  then show ?case by (simp add: pm_wf_initialize)
next
  case (p_get_proxy s now env pick res s')
  then show ?case using pm_wf_get_proxy by blast
next
  case (p_failed s proxy_url)
  then show ?case by (simp add: pm_wf_mark_proxy_failed)
next
  case (p_success s proxy_url now)
  then show ?case by (simp add: pm_wf_mark_proxy_success)
qed

text \<open>
  A rotation keeps every proxy of the working subset in it, under its address: the shuffle
  permutes the list, and fetching and validating only create new objects and append.
\<close>

lemma extend_proxies_keeps:
  "working_proxies (extend_proxies p s) = working_proxies s"
  "next_ref (extend_proxies p s) = Suc (next_ref s)"
  "q < next_ref s \<Longrightarrow> heap (extend_proxies p s) q = heap s q"
  by (simp_all add: extend_proxies_def alloc_def Let_def)

lemma fold_extend_proxies_keeps:
  "working_proxies (fold extend_proxies found s) = working_proxies s
   \<and> next_ref s \<le> next_ref (fold extend_proxies found s)
   \<and> (\<forall>q < next_ref s. heap (fold extend_proxies found s) q = heap s q)"
proof (induction found arbitrary: s)
  case Nil
  show ?case by simp
next
  case (Cons p ps)
  note IH = Cons[of "extend_proxies p s"]
  have "heap (fold extend_proxies ps (extend_proxies p s)) q = heap s q" if "q < next_ref s" for q
  proof -
    have "q < next_ref (extend_proxies p s)" using that by (simp add: extend_proxies_keeps(2))
    then have "heap (fold extend_proxies ps (extend_proxies p s)) q = heap (extend_proxies p s) q"
      using IH by blast
    then show ?thesis using that by (simp add: extend_proxies_keeps(3))
  qed
  moreover have "next_ref s \<le> next_ref (fold extend_proxies ps (extend_proxies p s))"
    using IH by (simp add: extend_proxies_keeps(2))
  moreover have "working_proxies (fold extend_proxies ps (extend_proxies p s)) = working_proxies s"
    using IH by (simp add: extend_proxies_keeps(1))
  ultimately show ?case by simp
qed

lemma fetch_proxies_keeps:
  "working_proxies (fetch_proxies found s) = working_proxies s"
  "q < next_ref s \<Longrightarrow> heap (fetch_proxies found s) q = heap s q"
  using fold_extend_proxies_keeps[of found s]
  by (simp_all add: fetch_proxies_def Let_def)

lemma validate_proxy_keeps:
  "set (working_proxies s) \<subseteq> set (working_proxies (validate_proxy responds now r s))"
  "url (heap (validate_proxy responds now r s) q) = url (heap s q)"
  by (auto simp: validate_proxy_def)

lemma fold_validate_proxy_keeps:
  "set (working_proxies s) \<subseteq> set (working_proxies (fold (validate_proxy responds now) rs s))
   \<and> (\<forall>q. url (heap (fold (validate_proxy responds now) rs s) q) = url (heap s q))"
proof (induction rs arbitrary: s)
  case Nil
  show ?case by simp
next
  case (Cons r rs)
  note IH = Cons[of "validate_proxy responds now r s"]
  have "set (working_proxies s)
      \<subseteq> set (working_proxies (fold (validate_proxy responds now) rs (validate_proxy responds now r s)))"
    using IH validate_proxy_keeps(1)[of s responds now r] by blast
  moreover have "url (heap (fold (validate_proxy responds now) rs (validate_proxy responds now r s)) q)
      = url (heap s q)" for q
    using IH validate_proxy_keeps(2)[of responds now r s q] by simp
  ultimately show ?case by simp
qed

lemma validate_proxies_keeps:
  "set (working_proxies s) \<subseteq> set (working_proxies (validate_proxies responds now s))"
  "url (heap (validate_proxies responds now s) q) = url (heap s q)"
  using fold_validate_proxy_keeps[of s responds now "proxies s"]
  by (simp_all add: validate_proxies_def)

lemma rotate_proxies_keeps:
  assumes "r \<in> set (working_proxies s)" and "r < next_ref s"
  shows "r \<in> set (working_proxies (rotate_proxies s now env))
       \<and> url (heap (rotate_proxies s now env) r) = url (heap s r)"
proof (cases "10 \<le> length (working_proxies s)")
  case True
  then show ?thesis using assms(1) by (simp add: rotate_proxies_def Let_def shuffle_set)
next
  case False
  let ?s1 = "s\<lparr>last_rotation := now\<rparr>"
  let ?f = "fetch_proxies (found_proxies env) ?s1"
  have r: "rotate_proxies s now env = validate_proxies (responds_through env) now ?f"
    using False by (simp add: rotate_proxies_def Let_def)
  have "r \<in> set (working_proxies ?f)"
    using assms(1) by (simp add: fetch_proxies_keeps(1))
  then have 1: "r \<in> set (working_proxies (rotate_proxies s now env))"
    unfolding r using validate_proxies_keeps(1)[of ?f "responds_through env" now] by blast
  have "heap ?f r = heap s r"
    using assms(2) fetch_proxies_keeps(2)[of r ?s1 "found_proxies env"] by simp
  then have 2: "url (heap (rotate_proxies s now env) r) = url (heap s r)"
    unfolding r by (simp add: validate_proxies_keeps(2))
  from 1 2 show ?thesis by blast
qed

lemma get_proxy_may_return:
  assumes "pm_wf s" and "use_proxies s" and "r \<in> set (working_proxies s)"
  shows "\<exists>pick s'. get_proxy s now env pick = (Some (url (heap s r)), s')"
proof -
  define s1 where "s1 = (if should_rotate s now then rotate_proxies s now env else s)"
  have lt: "r < next_ref s" using assms(1,3) unfolding pm_wf_def by blast
  have w: "r \<in> set (working_proxies s1)" and h: "url (heap s1 r) = url (heap s r)"
    using rotate_proxies_keeps[OF assms(3) lt, of now env] assms(3) unfolding s1_def by auto
  from w obtain i where i: "i < length (working_proxies s1)" "working_proxies s1 ! i = r"
    unfolding in_set_conv_nth by blast
  then have ne: "working_proxies s1 \<noteq> []" by auto
  have "get_proxy s now env i = (Some (url (heap s r)), s1\<lparr>current_proxy := Some r\<rparr>)"
    using assms(2) ne i unfolding get_proxy_def s1_def[symmetric] Let_def
    by (simp add: h)
  then show ?thesis by blast
qed

lemma mark_proxy_failed_removes_only_at_threshold:
  assumes "working_proxies (mark_proxy_failed s v) \<noteq> working_proxies s"
  shows "\<exists>q. find (\<lambda>q. url (heap s q) = v) (proxies s) = Some q
           \<and> max_proxy_retries s \<le> fail_count (heap (mark_proxy_failed s v) q)"
proof (cases "use_proxies s")
  case False
  then show ?thesis using assms by (simp add: mark_proxy_failed_disabled)
next
  case True
  show ?thesis
  proof (cases "find (\<lambda>q. url (heap s q) = v) (proxies s)")
    case None
    then show ?thesis using assms by (simp add: mark_proxy_failed_unknown)
  next
    case (Some q)
    have "max_proxy_retries s \<le> fail_count (heap s q) + 1"
      using assms unfolding mark_proxy_failed_known(7)[OF True Some] by (auto split: if_splits)
    then show ?thesis using Some by (simp add: mark_proxy_failed_known(6)[OF True Some])
  qed
qed

lemma demo_pool_eq:
  "demo_pool = \<lparr>use_proxies = True, proxy_timeout = 10, max_proxy_retries = 3,
        rotation_interval = 300, heap = ((\<lambda>_. no_proxy)(0 := demo_proxy ''http://10.0.0.1:8080'', Suc 0 := demo_proxy ''http://10.0.0.2:8080'')), next_ref = 2,
        proxies = [0, 1], working_proxies = [0, 1], failed_proxies = {},
        last_rotation = 0, current_proxy = None\<rparr>"
  by (simp add: demo_pool_def init_proxy_manager_def load_cached_proxies_def load_cached_proxy_def alloc_def demo_proxy_def Let_def numeral_2_eq_2)



text \<open>
  C10.  In a well-formed state (every reachable state is one), a call of
  \<^verbatim>\<open>mark_proxy_failed\<close> that leaves the proxy's \<open>fail_count\<close> below \<open>max_proxy_retries\<close>
  adds one to the count and clears \<open>is_working\<close> on the object, which stays in the working
  subset: the subset is unchanged, and every later call of \<^verbatim>\<open>get_proxy\<close>, whether it
  rotates or not, returns the proxy's address for a suitable draw.  A call of
  \<^verbatim>\<open>mark_proxy_failed\<close> changes the working subset only when it takes the count of the
  proxy it marks to the threshold or above.
\<close>

theorem proxy_below_threshold_stays_working:
  assumes "pm_wf s" and "use_proxies s"
    and "find (\<lambda>q. url (heap s q) = u) (proxies s) = Some r"
    and "r \<in> set (working_proxies s)"
    and "fail_count (heap (mark_proxy_failed s u) r) < max_proxy_retries s"
  shows "fail_count (heap (mark_proxy_failed s u) r) = fail_count (heap s r) + 1
       \<and> \<not> is_working (heap (mark_proxy_failed s u) r)
       \<and> working_proxies (mark_proxy_failed s u) = working_proxies s
       \<and> r \<in> set (working_proxies (mark_proxy_failed s u))
       \<and> (\<forall>now env. \<exists>pick s'. get_proxy (mark_proxy_failed s u) now env pick = (Some u, s'))
       \<and> (\<forall>v. working_proxies (mark_proxy_failed s v) \<noteq> working_proxies s
             \<longrightarrow> (\<exists>q. find (\<lambda>q. url (heap s q) = v) (proxies s) = Some q
                      \<and> max_proxy_retries s \<le> fail_count (heap (mark_proxy_failed s v) q)))"
proof -
  let ?t = "mark_proxy_failed s u"
  note k = mark_proxy_failed_known[OF assms(2,3)]
  have fc: "fail_count (heap ?t r) = fail_count (heap s r) + 1"
    and iw: "\<not> is_working (heap ?t r)"
    unfolding k(6) by simp_all
  have w: "working_proxies ?t = working_proxies s"
    using assms(5) unfolding k(7) fc by simp
  have r: "r \<in> set (working_proxies ?t)" using assms(4) w by simp
  have u: "url (heap ?t r) = u"
    using find_url[OF assms(3)] by (simp add: mark_proxy_failed_url)
  have wf: "pm_wf ?t" using assms(1) by (rule pm_wf_mark_proxy_failed)
  have g: "\<exists>pick s'. get_proxy ?t now env pick = (Some u, s')" for now env
    using get_proxy_may_return[OF wf k(2) r, of now env] unfolding u .
  show ?thesis
    using fc iw w r g mark_proxy_failed_removes_only_at_threshold[of s] by blast
qed

theorem proxy_below_threshold_stays_working_witness:
  "pm_wf demo_pool \<and> use_proxies demo_pool
   \<and> find (\<lambda>q. url (heap demo_pool q) = ''http://10.0.0.2:8080'') (proxies demo_pool) = Some 1
   \<and> 1 \<in> set (working_proxies demo_pool)
   \<and> fail_count (heap (mark_proxy_failed demo_pool ''http://10.0.0.2:8080'') 1)
        < max_proxy_retries demo_pool
   \<and> \<not> is_working (heap (mark_proxy_failed demo_pool ''http://10.0.0.2:8080'') 1)
   \<and> working_proxies (mark_proxy_failed demo_pool ''http://10.0.0.2:8080'') = [0, 1]
   \<and> (\<forall>now env. \<exists>pick s'.
         get_proxy (mark_proxy_failed demo_pool ''http://10.0.0.2:8080'') now env pick
           = (Some ''http://10.0.0.2:8080'', s'))"
proof -
  have wf: "pm_wf demo_pool" unfolding demo_pool_def by (rule pm_wf_init) (simp add: demo_proxy_def)
  have a: "use_proxies demo_pool" by (simp add: demo_pool_eq)
  have b: "find (\<lambda>q. url (heap demo_pool q) = ''http://10.0.0.2:8080'') (proxies demo_pool) = Some 1"
    by (simp add: demo_pool_eq demo_proxy_def)
  have c: "1 \<in> set (working_proxies demo_pool)" by (simp add: demo_pool_eq)
  have d: "fail_count (heap (mark_proxy_failed demo_pool ''http://10.0.0.2:8080'') 1) < max_proxy_retries demo_pool"
    by (simp add: mark_proxy_failed_known(6)[OF a b]) (simp add: demo_pool_eq demo_proxy_def)
  have e: "working_proxies demo_pool = [0, 1]" by (simp add: demo_pool_eq)
  from proxy_below_threshold_stays_working [OF wf a b c d] wf a b c d show ?thesis unfolding e by blast
qed

subsection \<open>Request dispatch\<close>

lemma attempt_bare_500:
  "attempt bare_scraper None (outside (Responds 500)) = (Inl (ClientResponseError 500), bare_scraper)"
  by (simp add: attempt_def before_request_def bare_scraper_def outside_def truthy_def
        report_proxy_failed_def)

lemma attempt_error_status:
  assumes "before_request d proxy env = Inr (proxy1, d1)"
    and "transport env = Responds status" and "400 \<le> status"
  shows "fst (attempt d proxy env) = Inl (ClientResponseError status)"
  using assms by (simp add: attempt_def)

lemma before_request_keeps:
  assumes "before_request d proxy env = Inr (proxy1, d1)"
  shows "rate_limiter d1 = rate_limiter d \<and> scraper_platform d1 = scraper_platform d"
  using assms unfolding before_request_def
  by (auto split: sum.splits option.splits if_splits prod.splits)

text \<open>
  C2.  A response with a status of 400 or more other than 429 is not fatal: against a server
  that answers 500 to every request, \<^verbatim>\<open>make_request\<close> makes all three attempts and ends with
  tenacity's \<open>RetryError\<close>.
\<close>

theorem error_status_consumes_all_attempts_counterexample:
  "make_request bare_scraper None (\<lambda>_. outside (Responds 500))
     = (Inl (RetryError (ClientResponseError 500)), bare_scraper, 3)"
proof -
  have r: "retry_if_exception_type (ClientResponseError 500)"
    by (simp add: retry_if_exception_type_def)
  have 3: "retrying bare_scraper None (\<lambda>_. outside (Responds 500)) 3
      = (Inl (RetryError (ClientResponseError 500)), bare_scraper, 3)"
    by (subst retrying.simps) (simp add: attempt_bare_500 r stop_after_attempt_def numeral_2_eq_2 numeral_3_eq_3)
  have 2: "retrying bare_scraper None (\<lambda>_. outside (Responds 500)) 2
      = retrying bare_scraper None (\<lambda>_. outside (Responds 500)) 3"
    by (subst retrying.simps) (simp add: attempt_bare_500 r stop_after_attempt_def numeral_2_eq_2 numeral_3_eq_3)
  have 1: "retrying bare_scraper None (\<lambda>_. outside (Responds 500)) 1
      = retrying bare_scraper None (\<lambda>_. outside (Responds 500)) 2"
    by (subst retrying.simps) (simp add: attempt_bare_500 r stop_after_attempt_def numeral_2_eq_2 numeral_3_eq_3)
  show ?thesis unfolding make_request_def 1 2 3 ..
qed

text \<open>
  C2, as the code has it.  An attempt that reaches the request and gets a response with a
  status of 400 or more, 429 or not, raises \<^verbatim>\<open>ClientResponseError\<close>, which is a
  \<^verbatim>\<open>ClientError\<close>: the call is retried as for a transport error, and after the third
  attempt \<open>RetryError\<close> is raised.  An exception that is neither a \<^verbatim>\<open>ClientError\<close> nor a
  \<^verbatim>\<open>TimeoutError\<close> is raised at once, whatever the number of the attempt.
\<close>

theorem error_status_is_retried:
  "(before_request d proxy (envs n) = Inr (proxy1, d1) \<and> transport (envs n) = Responds status
      \<and> 400 \<le> status
    \<longrightarrow> fst (attempt d proxy (envs n)) = Inl (ClientResponseError status)
        \<and> retry_if_exception_type (ClientResponseError status)
        \<and> retrying d proxy envs n =
            (if stop_after_attempt n
             then (Inl (RetryError (ClientResponseError status)), snd (attempt d proxy (envs n)), n)
             else retrying (snd (attempt d proxy (envs n))) proxy envs (n + 1)))
   \<and> (attempt d proxy (envs n) = (Inl e, d') \<and> \<not> retry_if_exception_type e
    \<longrightarrow> retrying d proxy envs n = (Inl e, d', n))"
proof -
  have a: "retrying d proxy envs n =
            (if stop_after_attempt n
             then (Inl (RetryError (ClientResponseError status)), snd (attempt d proxy (envs n)), n)
             else retrying (snd (attempt d proxy (envs n))) proxy envs (n + 1))"
    if "fst (attempt d proxy (envs n)) = Inl (ClientResponseError status)"
  proof -
    have d2: "attempt d proxy (envs n)
        = (Inl (ClientResponseError status), snd (attempt d proxy (envs n)))"
      using that by (simp add: prod_eq_iff)
    show ?thesis
      by (subst retrying.simps, subst d2) (simp add: retry_if_exception_type_def)
  qed
  have b: "retrying d proxy envs n = (Inl e, d', n)"
    if "attempt d proxy (envs n) = (Inl e, d')" "\<not> retry_if_exception_type e"
    by (subst retrying.simps) (simp add: that)
  show ?thesis
    using a b attempt_error_status[of d proxy "envs n" proxy1 d1 status]
    by (auto simp: retry_if_exception_type_def)
qed

theorem error_status_is_retried_witness:
  "before_request bare_scraper None (outside (Responds 500)) = Inr (None, bare_scraper)
   \<and> transport (outside (Responds 500)) = Responds 500 \<and> (400::nat) \<le> 500
   \<and> retrying bare_scraper None (\<lambda>_. outside (Responds 500)) 1
       = retrying bare_scraper None (\<lambda>_. outside (Responds 500)) 2
   \<and> attempt bare_scraper None (outside (Raises OtherError)) = (Inl OtherError, bare_scraper)
   \<and> \<not> retry_if_exception_type OtherError
   \<and> retrying bare_scraper None (\<lambda>_. outside (Raises OtherError)) 1
       = (Inl OtherError, bare_scraper, 1)"
proof -
  have a: "before_request bare_scraper None (outside (Responds 500)) = Inr (None, bare_scraper)"
    by (simp add: before_request_def bare_scraper_def truthy_def)
  have b: "transport (outside (Responds 500)) = Responds 500" by (simp add: outside_def)
  have c: "attempt bare_scraper None (outside (Raises OtherError)) = (Inl OtherError, bare_scraper)"
    by (simp add: attempt_def before_request_def bare_scraper_def truthy_def outside_def)
  have d: "\<not> retry_if_exception_type OtherError" by (simp add: retry_if_exception_type_def)
  have e: "\<not> stop_after_attempt 1" by (simp add: stop_after_attempt_def)
  have f: "snd (attempt bare_scraper None (outside (Responds 500))) = bare_scraper"
    by (simp add: attempt_bare_500)
  from error_status_is_retried [of bare_scraper None "\<lambda>_. outside (Responds 500)" 1 None bare_scraper 500]
       error_status_is_retried [of bare_scraper None "\<lambda>_. outside (Raises OtherError)" 1 _ _ 0 OtherError bare_scraper]
       a b c d e f
  show ?thesis by (simp add: numeral_2_eq_2)
qed

text \<open>
  C9.  An attempt that reaches the request and gets status 429 raises
  \<^verbatim>\<open>ClientResponseError\<close> 429 after reporting to both components: the rate limiter, when
  there is one, is left as \<^verbatim>\<open>mark_request_failed\<close> with the rate-limit error type leaves it,
  and, when the request went through a proxy and there is a proxy manager, the manager is
  left as \<^verbatim>\<open>mark_proxy_failed\<close> for that proxy leaves it.
\<close>

theorem status_429_penalises_limiter_and_proxy:
  assumes "before_request d proxy env = Inr (proxy1, d1)" and "transport env = Responds 429"
  shows "\<exists>d'. attempt d proxy env = (Inl (ClientResponseError 429), d')
       \<and> rate_limiter d' =
           map_option (\<lambda>rl. mark_request_failed rl (scraper_platform d) ''rate_limit''
                              (clock_response env)) (rate_limiter d)
       \<and> ''rate_limit'' \<in> rate_limit_error_types
       \<and> (\<forall>u pm. proxy1 = Some u \<and> u \<noteq> [] \<and> proxy_manager d1 = Some pm
             \<longrightarrow> proxy_manager d' = Some (mark_proxy_failed pm u))"
proof -
  let ?d' = "report_proxy_failed (report_rate_limited d1 (clock_response env)) proxy1"
  have a: "attempt d proxy env = (Inl (ClientResponseError 429), ?d')"
    using assms by (simp add: attempt_def)
  have b: "rate_limiter ?d' = map_option (\<lambda>rl. mark_request_failed rl (scraper_platform d) ''rate_limit''
                              (clock_response env)) (rate_limiter d)"
    using before_request_keeps[OF assms(1)]
    by (auto simp: report_proxy_failed_def report_rate_limited_def split: option.splits)
  have c: "proxy_manager ?d' = Some (mark_proxy_failed pm u)"
    if "proxy1 = Some u" "u \<noteq> []" "proxy_manager d1 = Some pm" for u pm
    using that by (auto simp: report_proxy_failed_def report_rate_limited_def split: option.splits)
  show ?thesis using a b c by (auto simp: rate_limit_error_types_def)
qed


theorem status_429_penalises_limiter_and_proxy_witness:
  "before_request full_scraper (Some ''http://10.0.0.2:8080'') (outside (Responds 429))
     = Inr (Some ''http://10.0.0.2:8080'', full_scraper)
   \<and> transport (outside (Responds 429)) = Responds 429
   \<and> (\<exists>d'. attempt full_scraper (Some ''http://10.0.0.2:8080'') (outside (Responds 429))
              = (Inl (ClientResponseError 429), d')
          \<and> rate_limiter d' = Some (mark_request_failed init_limiter ''twitter'' ''rate_limit'' 0)
          \<and> proxy_manager d' = Some (mark_proxy_failed demo_pool ''http://10.0.0.2:8080''))"
proof -
  have w: "\<exists>w. wait_if_needed init_limiter ''twitter'' 0 0 = Inr w"
    by (simp add: wait_if_needed_def init_limiter_def get_or_general_def default_rate_limits_def
          Let_def)
  have a: "before_request full_scraper (Some ''http://10.0.0.2:8080'') (outside (Responds 429))
     = Inr (Some ''http://10.0.0.2:8080'', full_scraper)"
    using w by (auto simp: before_request_def full_scraper_def truthy_def outside_def)
  have b: "transport (outside (Responds 429)) = Responds 429" by (simp add: outside_def)
  have c: "proxy_manager full_scraper = Some demo_pool" "rate_limiter full_scraper = Some init_limiter"
    "scraper_platform full_scraper = ''twitter''" "clock_response (outside (Responds 429)) = 0"
    by (simp_all add: full_scraper_def outside_def)
  from status_429_penalises_limiter_and_proxy [OF a b] a b show ?thesis unfolding c by auto
qed

end
